theory Spec2Isabelle
  imports Complex_Main "HOL-Library.Word"
begin

unbundle bit_operations_syntax

section \<open>Signature parser (lib/signature)\<close>

text \<open>
  A node of the parsed signature tree: \<^verbatim>\<open>interface SignatureNode { type: string; child: SignatureNode[] }\<close>.
  The type field always holds the single character that \<^verbatim>\<open>parseOne\<close> was called with.
\<close>

datatype SignatureNode = Node (type: char) (child: "SignatureNode list")

text \<open>The two \<^verbatim>\<open>throw new Error(...)\<close> sites of \<^verbatim>\<open>parseSignature\<close>.\<close>

datatype SignatureError = UnknownType char | UnexpectedEnd

text \<open>\<^verbatim>\<open>KNOWN_TYPES\<close>: the characters of \<^verbatim>\<open>"(){}ybnqiuxtdsogavh"\<close>.\<close>

definition KNOWN_TYPES :: "char \<Rightarrow> bool" where
  "KNOWN_TYPES c = (c \<in> set ''(){}ybnqiuxtdsogavh'')"

text \<open>\<^verbatim>\<open>BRACKET_PAIRS\<close>, used only at \<^verbatim>\<open>"{"\<close> and \<^verbatim>\<open>"("\<close>.\<close>

definition BRACKET_PAIRS :: "char \<Rightarrow> char" where
  "BRACKET_PAIRS c = (if c = CHR ''{'' then CHR ''}'' else CHR '')'')"

text \<open>
  \<^verbatim>\<open>parseOne(char)\<close> reads from the shared cursor \<^verbatim>\<open>index\<close>; here the cursor is the
  unread rest of the signature, passed in and returned. \<^verbatim>\<open>parseElements\<close> is the
  \<^verbatim>\<open>while\<close> loop of the struct / dict-entry case together with the
  \<^verbatim>\<open>checkNotEnd(element)\<close> that follows it.
\<close>

function parseOne :: "char \<Rightarrow> string \<Rightarrow> SignatureError + (SignatureNode \<times> string)"
  and parseElements :: "char \<Rightarrow> string \<Rightarrow> SignatureError + (SignatureNode list \<times> string)"
where
  "parseOne c rest =
     (if \<not> KNOWN_TYPES c then Inl (UnknownType c)
      else if c = CHR ''a'' then
        (case rest of
           [] \<Rightarrow> Inl UnexpectedEnd
         | element # rest' \<Rightarrow>
             (case parseOne element rest' of
                Inl e \<Rightarrow> Inl e
              | Inr (n, r) \<Rightarrow> Inr (Node c [n], r)))
      else if c = CHR ''{'' \<or> c = CHR ''('' then
        (case parseElements (BRACKET_PAIRS c) rest of
           Inl e \<Rightarrow> Inl e
         | Inr (ns, r) \<Rightarrow> Inr (Node c ns, r))
      else Inr (Node c [], rest))"
| "parseElements closing rest =
     (case rest of
        [] \<Rightarrow> Inl UnexpectedEnd
      | element # rest' \<Rightarrow>
          if element = closing then Inr ([], rest')
          else
            (case parseOne element rest' of
               Inl e \<Rightarrow> Inl e
             | Inr (n, r) \<Rightarrow>
                 (case parseElements closing r of
                    Inl e \<Rightarrow> Inl e
                  | Inr (ns, r') \<Rightarrow> Inr (n # ns, r'))))"
  by pat_completeness auto


lemma parse_length_dom:
  "parseOne_parseElements_dom (Inl (c, rest)) \<Longrightarrow>
     (\<forall>n r. parseOne c rest = Inr (n, r) \<longrightarrow> length r \<le> length rest)"
  "parseOne_parseElements_dom (Inr (closing, rest)) \<Longrightarrow>
     (\<forall>ns r. parseElements closing rest = Inr (ns, r) \<longrightarrow> length r < length rest)"
proof (induct rule: parseOne_parseElements.pinduct)
  case (1 c rest)
  show ?case
    using 1(2,3)
    by (auto simp add: parseOne.psimps[OF 1(1)]
        split: if_splits list.splits sum.splits prod.splits)
next
  case (2 closing rest)
  show ?case
    using 2(2,3)
    by (auto simp add: parseElements.psimps[OF 2(1)]
        split: if_splits list.splits sum.splits prod.splits) fastforce
qed

termination parseOne
proof (relation "measure (\<lambda>x. case x of Inl (c, rest) \<Rightarrow> 2 * length rest + 1
                                   | Inr (c, rest) \<Rightarrow> 2 * length rest)", goal_cases)
  case 1
  show ?case by simp
next
  case (2 c rest element rest')
  then show ?case by simp
next
  case (3 c rest)
  then show ?case by simp
next
  case (4 closing rest element rest')
  then show ?case by simp
next
  case (5 closing rest element rest' x n r)
  then show ?case
    using parse_length_dom(1)[of element rest'] by auto
qed

declare parseOne.simps [simp del] parseElements.simps [simp del]

lemma parse_length:
  "\<forall>n r. parseOne c rest = Inr (n, r) \<longrightarrow> length r \<le> length rest"
  "\<forall>ns r. parseElements closing rest' = Inr (ns, r) \<longrightarrow> length r < length rest'"
proof (induct c rest and closing rest' rule: parseOne_parseElements.induct)
  case (1 c rest)
  show ?case
    using 1
    by (auto simp add: parseOne.simps[of c rest]
        split: if_splits list.splits sum.splits prod.splits)
next
  case (2 closing rest)
  show ?case
    using 2
    by (auto simp add: parseElements.simps[of closing rest]
        split: if_splits list.splits sum.splits prod.splits) fastforce
qed

lemma parseOne_length: "parseOne c rest = Inr (n, r) \<Longrightarrow> length r \<le> length rest"
  using parse_length(1) by blast

text \<open>
  The body of \<^verbatim>\<open>parseSignature\<close>: \<^verbatim>\<open>while ((char = next()) !== null) result.push(parseOne(char))\<close>.
\<close>

function parseSignature :: "string \<Rightarrow> SignatureError + SignatureNode list" where
  "parseSignature [] = Inr []"
| "parseSignature (c # rest) =
     (case parseOne c rest of
        Inl e \<Rightarrow> Inl e
      | Inr (n, r) \<Rightarrow>
          (case parseSignature r of
             Inl e \<Rightarrow> Inl e
           | Inr ns \<Rightarrow> Inr (n # ns)))"
  by pat_completeness auto
termination
proof (relation "measure length", goal_cases)
  case 1
  show ?case by simp
next
  case (2 c rest x n r)
  then show ?case using parseOne_length[of c rest n r] by simp
qed

text \<open>
  The rendering of a tree, as the specification words it: the type codes concatenated,
  \<^verbatim>\<open>a\<close> followed by the rendering of its element, \<^verbatim>\<open>(\<close> and \<^verbatim>\<open>)\<close> around struct children,
  \<^verbatim>\<open>{\<close> and \<^verbatim>\<open>}\<close> around dict-entry children.
\<close>

fun render :: "SignatureNode \<Rightarrow> string" where
  "render (Node t cs) =
     (if t = CHR ''a'' then t # concat (map render cs)
      else if t = CHR ''('' then t # concat (map render cs) @ '')''
      else if t = CHR ''{'' then t # concat (map render cs) @ ''}''
      else [t])"

definition rendering :: "SignatureNode list \<Rightarrow> string" where
  "rendering ns = concat (map render ns)"


lemma parseOne_unknown: "\<not> KNOWN_TYPES c \<Longrightarrow> parseOne c rest = Inl (UnknownType c)"
  by (simp add: parseOne.simps[of c rest])

lemma parseOne_array_end: "parseOne CHR ''a'' [] = Inl UnexpectedEnd"
  by (simp add: parseOne.simps[of "CHR ''a''" "[]"] KNOWN_TYPES_def)

lemma parseOne_array:
  "parseOne CHR ''a'' (element # rest) =
     (case parseOne element rest of Inl e \<Rightarrow> Inl e | Inr (n, r) \<Rightarrow> Inr (Node CHR ''a'' [n], r))"
  by (simp add: parseOne.simps[of "CHR ''a''" "element # rest"] KNOWN_TYPES_def)

lemma parseOne_bracket:
  "c = CHR ''{'' \<or> c = CHR ''('' \<Longrightarrow>
   parseOne c rest =
     (case parseElements (BRACKET_PAIRS c) rest of Inl e \<Rightarrow> Inl e | Inr (ns, r) \<Rightarrow> Inr (Node c ns, r))"
  by (auto simp add: parseOne.simps[of c rest] KNOWN_TYPES_def)

lemma parseOne_leaf:
  "KNOWN_TYPES c \<Longrightarrow> c \<noteq> CHR ''a'' \<Longrightarrow> c \<noteq> CHR ''{'' \<Longrightarrow> c \<noteq> CHR ''('' \<Longrightarrow>
   parseOne c rest = Inr (Node c [], rest)"
  by (simp add: parseOne.simps[of c rest])

lemma parseElements_end: "parseElements closing [] = Inl UnexpectedEnd"
  by (simp add: parseElements.simps[of closing "[]"])

lemma parseElements_close: "parseElements closing (closing # rest) = Inr ([], rest)"
  by (simp add: parseElements.simps[of closing "closing # rest"])

lemma parseElements_element:
  "element \<noteq> closing \<Longrightarrow>
   parseElements closing (element # rest) =
     (case parseOne element rest of
        Inl e \<Rightarrow> Inl e
      | Inr (n, r) \<Rightarrow>
          (case parseElements closing r of Inl e \<Rightarrow> Inl e | Inr (ns, r') \<Rightarrow> Inr (n # ns, r')))"
  by (simp add: parseElements.simps[of closing "element # rest"])

lemmas parse_simps = parseOne_unknown parseOne_array_end parseOne_array parseOne_bracket
  parseOne_leaf parseElements_end parseElements_close parseElements_element

lemma parse_append:
  "\<forall>n r. parseOne c rest = Inr (n, r) \<longrightarrow> parseOne c (rest @ more) = Inr (n, r @ more)"
  "\<forall>ns r. parseElements closing rest' = Inr (ns, r) \<longrightarrow>
      parseElements closing (rest' @ more) = Inr (ns, r @ more)"
proof (induct c rest and closing rest' rule: parseOne_parseElements.induct)
  case (1 c rest)
  show ?case
  proof (intro allI impI)
    fix n r
    assume ok: "parseOne c rest = Inr (n, r)"
    have known: "KNOWN_TYPES c" using ok parseOne_unknown[of c rest] by auto
    consider (arr) "c = CHR ''a''" | (br) "c = CHR ''{'' \<or> c = CHR ''(''"
      | (leaf) "c \<noteq> CHR ''a''" "c \<noteq> CHR ''{''" "c \<noteq> CHR ''(''" by blast
    then show "parseOne c (rest @ more) = Inr (n, r @ more)"
    proof cases
      case arr
      then obtain element rest' where rest: "rest = element # rest'"
        using ok by (cases rest) (simp_all add: parseOne_array_end)
      obtain k where k: "parseOne element rest' = Inr (k, r)" and n: "n = Node CHR ''a'' [k]"
        using ok arr rest by (auto simp add: parseOne_array split: sum.splits prod.splits)
      have "parseOne element (rest' @ more) = Inr (k, r @ more)"
        using 1(1)[OF _ arr rest] known k by blast
      then show ?thesis using arr rest n by (simp add: parseOne_array)
    next
      case br
      then have ne: "c \<noteq> CHR ''a''" by auto
      obtain ns where ns: "parseElements (BRACKET_PAIRS c) rest = Inr (ns, r)" and n: "n = Node c ns"
        using ok br by (auto simp add: parseOne_bracket split: sum.splits prod.splits)
      have "parseElements (BRACKET_PAIRS c) (rest @ more) = Inr (ns, r @ more)"
        using 1(2)[OF _ ne br] known ns by blast
      then show ?thesis using br n by (simp add: parseOne_bracket)
    next
      case leaf
      then show ?thesis using ok known by (simp add: parseOne_leaf)
    qed
  qed
next
  case (2 closing rest)
  show ?case
  proof (intro allI impI)
    fix ns r
    assume ok: "parseElements closing rest = Inr (ns, r)"
    obtain element rest' where rest: "rest = element # rest'"
      using ok by (cases rest) (simp_all add: parseElements_end)
    show "parseElements closing (rest @ more) = Inr (ns, r @ more)"
    proof (cases "element = closing")
      case True
      then show ?thesis using ok rest by (simp add: parseElements_close)
    next
      case False
      obtain k r1 ks where k: "parseOne element rest' = Inr (k, r1)"
        and ks: "parseElements closing r1 = Inr (ks, r)" and ns: "ns = k # ks"
        using ok rest False
        by (auto simp add: parseElements_element split: sum.splits prod.splits)
      have a: "parseOne element (rest' @ more) = Inr (k, r1 @ more)"
        using 2(1)[OF rest False] k by blast
      have b: "parseElements closing (r1 @ more) = Inr (ks, r @ more)"
        using 2(2)[OF rest False k refl] ks by blast
      show ?thesis using rest False a b ns by (simp add: parseElements_element)
    qed
  qed
qed


lemma parse_render:
  "\<forall>n r. parseOne c rest = Inr (n, r) \<longrightarrow> c # rest = render n @ r"
  "\<forall>ns r. parseElements closing rest' = Inr (ns, r) \<longrightarrow> rest' = concat (map render ns) @ closing # r"
proof (induct c rest and closing rest' rule: parseOne_parseElements.induct)
  case (1 c rest)
  show ?case
    using 1
    by (auto simp add: parseOne.simps[of c rest] BRACKET_PAIRS_def
        split: if_splits list.splits sum.splits prod.splits)
next
  case (2 closing rest)
  show ?case
    using 2
    by (auto simp add: parseElements.simps[of closing rest]
        split: if_splits list.splits sum.splits prod.splits)
qed

lemma parseSignature_render: "parseSignature s = Inr ns \<Longrightarrow> rendering ns = s"
proof (induct s arbitrary: ns rule: parseSignature.induct)
  case 1
  then show ?case by (simp add: rendering_def)
next
  case (2 c rest)
  then show ?case
    using parse_render(1)[of c rest]
    by (auto simp add: rendering_def split: sum.splits prod.splits)
qed

lemma parseSignature_Cons:
  "parseSignature (c # rest) = Inr ns \<Longrightarrow>
   \<exists>n r ms. parseOne c rest = Inr (n, r) \<and> parseSignature r = Inr ms \<and> ns = n # ms"
  by (auto split: sum.splits prod.splits)

lemma parseSignature_append:
  "parseSignature s1 = Inr ns1 \<Longrightarrow> parseSignature s2 = Inr ns2 \<Longrightarrow>
   parseSignature (s1 @ s2) = Inr (ns1 @ ns2)"
proof (induct ns1 arbitrary: s1)
  case Nil
  show ?case
  proof (cases s1)
    case Nil
    then show ?thesis using \<open>parseSignature s2 = Inr ns2\<close> by simp
  next
    case (Cons a list)
    then show ?thesis using Nil.prems(1) parseSignature_Cons[of a list "[]"] by blast
  qed
next
  case (Cons n ms)
  obtain c rest where s1: "s1 = c # rest"
    using Cons.prems(1) by (cases s1) simp_all
  obtain r where one: "parseOne c rest = Inr (n, r)" and more: "parseSignature r = Inr ms"
    using Cons.prems(1) parseSignature_Cons[of c rest "n # ms"] unfolding s1 by blast
  have "parseOne c (rest @ s2) = Inr (n, r @ s2)"
    using parse_append(1)[of c rest s2] one by blast
  moreover have "parseSignature (r @ s2) = Inr (ms @ ns2)"
    using Cons.hyps[OF more Cons.prems(2)] .
  ultimately show ?case by (simp add: s1)
qed






subsection \<open>Claims about the signature parser\<close>

text \<open>
  C1. For every signature string \<open>s\<close>, \<^verbatim>\<open>parseSignature(s)\<close> either returns a tree of
  type nodes whose rendering (type codes concatenated, \<^verbatim>\<open>a\<close> followed by the rendering
  of its element, brackets around struct and dict-entry children) is equal to \<open>s\<close>, or it
  fails with a signature error.
\<close>

theorem parse_renders_or_fails:
  "(\<exists>tree. parseSignature s = Inr tree \<and> rendering tree = s) \<or> (\<exists>e. parseSignature s = Inl e)"
proof (cases "parseSignature s")
  case (Inl e)
  then show ?thesis by blast
next
  case (Inr tree)
  then have "rendering tree = s" by (rule parseSignature_render)
  with Inr show ?thesis by blast
qed




text \<open>
  C10. A closing bracket that is not consumed as the end of a container is a known type:
  wherever \<^verbatim>\<open>)\<close> or \<^verbatim>\<open>}\<close> stands at top level (what precedes it parses completely),
  \<^verbatim>\<open>parseSignature\<close> does not report an error for it but returns a node whose type is the
  bracket itself, with no children. With nothing before and after, these are the inputs
  \<^verbatim>\<open>")"\<close> and \<^verbatim>\<open>"}"\<close>.
\<close>

theorem stray_closing_bracket_is_a_node:
  "c = CHR '')'' \<or> c = CHR ''}'' \<Longrightarrow>
   parseSignature before = Inr ns1 \<Longrightarrow> parseSignature after = Inr ns2 \<Longrightarrow>
   parseSignature (before @ c # after) = Inr (ns1 @ Node c [] # ns2)"
proof -
  assume c: "c = CHR '')'' \<or> c = CHR ''}''"
    and b: "parseSignature before = Inr ns1" and a: "parseSignature after = Inr ns2"
  have "parseOne c after = Inr (Node c [], after)"
    using c by (auto simp add: parseOne_leaf KNOWN_TYPES_def)
  then have "parseSignature (c # after) = Inr (Node c [] # ns2)"
    using a by simp
  then show ?thesis
    using parseSignature_append[OF b] by simp
qed

theorem stray_closing_bracket_witness:
  "parseSignature '')'' = Inr [Node CHR '')'' []] \<and>
   parseSignature ''}'' = Inr [Node CHR ''}'' []] \<and>
   parseSignature ''i)u'' = Inr [Node CHR ''i'' [], Node CHR '')'' [], Node CHR ''u'' []]"
proof -
  have e: "parseSignature [] = Inr []" by simp
  have i: "parseSignature ''i'' = Inr [Node CHR ''i'' []]"
    by (simp add: parse_simps KNOWN_TYPES_def)
  have u: "parseSignature ''u'' = Inr [Node CHR ''u'' []]"
    by (simp add: parse_simps KNOWN_TYPES_def)
  show ?thesis
    using stray_closing_bracket_is_a_node[of "CHR '')''" "[]" "[]" "[]" "[]", OF _ e e]
      stray_closing_bracket_is_a_node[of "CHR ''}''" "[]" "[]" "[]" "[]", OF _ e e]
      stray_closing_bracket_is_a_node[of "CHR '')''" "''i''" _ "''u''" _, OF _ i u]
    by simp
qed


section \<open>Put stream (lib/put) and alignment (lib/align)\<close>

type_synonym byte = "8 word"

text \<open>
  An entry of \<^verbatim>\<open>Put.words\<close>: either \<^verbatim>\<open>{ buffer }\<close> (pushed by \<^verbatim>\<open>put\<close>) or
  \<^verbatim>\<open>{ bytes, value }\<close> (pushed by \<^verbatim>\<open>word8\<close>, \<^verbatim>\<open>word16le\<close>, \<^verbatim>\<open>word32le\<close>; the
  \<^verbatim>\<open>endian\<close> tag is never read).
\<close>

datatype PutWord = BufferWord "byte list" | ValueWord nat int

text \<open>
  \<^verbatim>\<open>class Put\<close> with its fields \<^verbatim>\<open>words\<close>, \<^verbatim>\<open>_length\<close> and \<^verbatim>\<open>_offset\<close>. Offsets are
  positions in a byte stream, modelled as natural numbers.
\<close>

record Put =
  words :: "PutWord list"
  p_length :: nat
  p_offset :: nat

definition new_put :: Put where
  "new_put = \<lparr>words = [], p_length = 0, p_offset = 0\<rparr>"

definition put :: "Put \<Rightarrow> byte list \<Rightarrow> Put" where
  "put ps buf = ps\<lparr>words := words ps @ [BufferWord buf], p_length := p_length ps + length buf\<rparr>"

definition word8 :: "Put \<Rightarrow> int \<Rightarrow> Put" where
  "word8 ps v = ps\<lparr>words := words ps @ [ValueWord 1 v], p_length := p_length ps + 1\<rparr>"

definition word16le :: "Put \<Rightarrow> int \<Rightarrow> Put" where
  "word16le ps v = ps\<lparr>words := words ps @ [ValueWord 2 v], p_length := p_length ps + 2\<rparr>"

definition word32le :: "Put \<Rightarrow> int \<Rightarrow> Put" where
  "word32le ps v = ps\<lparr>words := words ps @ [ValueWord 4 v], p_length := p_length ps + 4\<rparr>"

text \<open>
  \<^verbatim>\<open>(word.value >> i) & 0xff\<close>: the operand is taken to a signed 32-bit integer
  (\<open>int32\<close>, the conversion ToInt32 on integers), shifted arithmetically, and masked to
  its low byte.
\<close>

definition int32 :: "int \<Rightarrow> int" where
  "int32 x = (x + 2 ^ 31) mod 2 ^ 32 - 2 ^ 31"

definition shifted_byte :: "int \<Rightarrow> nat \<Rightarrow> byte" where
  "shifted_byte v i = word_of_int ((int32 v div 2 ^ i) mod 256)"

text \<open>The bytes one entry contributes in \<^verbatim>\<open>Put.buffer()\<close>: for \<open>i = 0, 8, ..\<close> below \<open>bytes * 8\<close>.\<close>

fun word_bytes :: "PutWord \<Rightarrow> byte list" where
  "word_bytes (BufferWord buf) = buf"
| "word_bytes (ValueWord n v) = map (\<lambda>j. shifted_byte v (8 * j)) [0..<n]"

text \<open>
  \<^verbatim>\<open>Put.buffer()\<close>: a zero-filled buffer of \<^verbatim>\<open>_length\<close> bytes into which the entries are
  written in order; a write past the end of the buffer is dropped.
\<close>

definition buffer :: "Put \<Rightarrow> byte list" where
  "buffer ps =
     take (p_length ps) (concat (map word_bytes (words ps)) @ replicate (p_length ps) 0)"

text \<open>\<^verbatim>\<open>_length\<close> is the number of bytes of the entries: kept by every operation of the class.\<close>

definition Put_inv :: "Put \<Rightarrow> bool" where
  "Put_inv ps = (p_length ps = length (concat (map word_bytes (words ps))))"

text \<open>
  \<^verbatim>\<open>align(ps, n)\<close>, the same in both align modules (the older one copies the zero buffer
  with \<^verbatim>\<open>Buffer.from\<close> before \<^verbatim>\<open>put\<close>). It is called with the literals 2, 4 and 8.
\<close>

definition align :: "Put \<Rightarrow> nat \<Rightarrow> Put" where
  "align ps n =
     (let pad = n - (p_offset ps mod n) in
      if pad = 0 \<or> pad = n then ps
      else (put ps (replicate pad 0))\<lparr>p_offset := p_offset ps + pad\<rparr>)"

lemma buffer_inv: "Put_inv ps \<Longrightarrow> buffer ps = concat (map word_bytes (words ps))"
  by (simp add: buffer_def Put_inv_def)

lemma Put_inv_new: "Put_inv new_put"
  by (simp add: Put_inv_def new_put_def)

lemma Put_inv_put: "Put_inv ps \<Longrightarrow> Put_inv (put ps buf)"
  by (simp add: Put_inv_def put_def)


lemma Put_inv_word16le: "Put_inv ps \<Longrightarrow> Put_inv (word16le ps v)"
  by (simp add: Put_inv_def word16le_def)

lemma Put_inv_word32le: "Put_inv ps \<Longrightarrow> Put_inv (word32le ps v)"
  by (simp add: Put_inv_def word32le_def)

lemma Put_inv_offset: "Put_inv (ps\<lparr>p_offset := k\<rparr>) = Put_inv ps"
  by (simp add: Put_inv_def)

lemma Put_inv_align: "Put_inv ps \<Longrightarrow> Put_inv (align ps n)"
  by (simp add: align_def Let_def Put_inv_offset Put_inv_put)

lemma buffer_put: "Put_inv ps \<Longrightarrow> buffer (put ps buf) = buffer ps @ buf"
  by (simp add: buffer_inv Put_inv_put) (simp add: put_def)

lemma buffer_offset: "buffer (ps\<lparr>p_offset := k\<rparr>) = buffer ps"
  by (simp add: buffer_def)

lemma buffer_align:
  "Put_inv ps \<Longrightarrow> 0 < n \<Longrightarrow>
   buffer (align ps n) = buffer ps @ replicate ((n - p_offset ps mod n) mod n) 0"
  by (auto simp add: align_def Let_def buffer_offset buffer_put)

lemma offset_align:
  "0 < n \<Longrightarrow> p_offset (align ps n) = p_offset ps + (n - p_offset ps mod n) mod n"
  by (auto simp add: align_def Let_def put_def)

text \<open>
  C3. For every starting offset \<open>k\<close> and every alignment \<open>n\<close> in \<open>{1, 2, 4, 8}\<close>, aligning a
  put stream appends exactly \<open>(n - k mod n) mod n\<close> bytes, each of them zero, and afterwards
  the running offset is the least multiple of \<open>n\<close> that is at least \<open>k\<close>; nothing is
  appended when \<open>k\<close> is already a multiple of \<open>n\<close>.
\<close>

theorem align_pads_with_zeros:
  assumes "Put_inv ps" and "n \<in> {1, 2, 4, 8}" and "p_offset ps = k"
  shows "buffer (align ps n) = buffer ps @ replicate ((n - k mod n) mod n) 0
       \<and> n dvd p_offset (align ps n) \<and> k \<le> p_offset (align ps n)
       \<and> (\<forall>m. n dvd m \<and> k \<le> m \<longrightarrow> p_offset (align ps n) \<le> m)
       \<and> (n dvd k \<longrightarrow> align ps n = ps)"
proof -
  have n: "0 < n" using assms(2) by auto
  let ?k' = "k + (n - k mod n) mod n"
  have off: "p_offset (align ps n) = ?k'"
    using offset_align[OF n, of ps] assms(3) by simp
  have dvd: "n dvd ?k'"
  proof (cases "k mod n = 0")
    case True
    then show ?thesis by (simp add: mod_eq_0_iff_dvd)
  next
    case False
    then have "(n - k mod n) mod n = n - k mod n" using n by simp
    moreover have "k + (n - k mod n) = (k div n + 1) * n"
    proof -
      have "k mod n < n" using n by simp
      then have "k + (n - k mod n) = (k - k mod n) + n" by (simp add: mod_less_eq_dividend)
      also have "k - k mod n = k div n * n" by (simp add: minus_mod_eq_div_mult)
      finally show ?thesis by simp
    qed
    ultimately show ?thesis by simp
  qed
  have least: "?k' \<le> m" if m: "n dvd m" "k \<le> m" for m
  proof (cases "k mod n = 0")
    case True
    then show ?thesis using m by simp
  next
    case False
    then have pad: "(n - k mod n) mod n = n - k mod n" using n by simp
    obtain q where q: "m = n * q" using m(1) by (auto simp: dvd_def)
    have "k div n < q"
    proof (rule ccontr)
      assume "\<not> k div n < q"
      then have "q \<le> k div n" by simp
      then have "n * q \<le> n * (k div n)" by simp
      then have "m \<le> n * (k div n)" using q by simp
      moreover have "n * (k div n) < k"
        using False by (metis mult_div_mod_eq less_add_same_cancel1 neq0_conv)
      ultimately show False using m(2) by simp
    qed
    then have "k div n + 1 \<le> q" by simp
    then have "n * (k div n + 1) \<le> n * q" by (rule mult_le_mono2)
    moreover have "k + (n - k mod n) = n * (k div n + 1)"
    proof -
      have "k mod n < n" using n by simp
      then have "k + (n - k mod n) = (k - k mod n) + n" by (simp add: mod_less_eq_dividend)
      also have "k - k mod n = n * (k div n)" by (simp add: minus_mod_eq_mult_div)
      finally show ?thesis by simp
    qed
    ultimately show ?thesis using pad q by simp
  qed
  have same: "align ps n = ps" if "n dvd k"
    using that assms(3) n by (simp add: align_def Let_def mod_eq_0_iff_dvd)
  show ?thesis
    using buffer_align[OF assms(1) n] assms(3) off dvd least same by simp
qed


theorem align_pads_witness:
  "Put_inv (new_put\<lparr>p_offset := 5\<rparr>) \<and> (4 :: nat) \<in> {1, 2, 4, 8}
   \<and> buffer (align (new_put\<lparr>p_offset := 5\<rparr>) 4) = [0, 0, 0]
   \<and> p_offset (align (new_put\<lparr>p_offset := 5\<rparr>) 4) = 8
   \<and> align (new_put\<lparr>p_offset := 8\<rparr>) 4 = new_put\<lparr>p_offset := 8\<rparr>"
proof -
  have a: "Put_inv (new_put\<lparr>p_offset := 5\<rparr>)" and b: "Put_inv (new_put\<lparr>p_offset := 8\<rparr>)"
    by (simp_all add: Put_inv_def new_put_def)
  have n: "(4 :: nat) \<in> {1, 2, 4, 8}" by simp
  have z: "buffer (new_put\<lparr>p_offset := 5\<rparr>) = []"
    by (simp add: buffer_def new_put_def)
  have five: "((4::nat) - 5 mod 4) mod 4 = 3" by simp
  have c: "buffer (align (new_put\<lparr>p_offset := 5\<rparr>) 4) = [0, 0, 0]"
    using align_pads_with_zeros[OF a n, of 5] unfolding z five
    by (simp add: numeral_3_eq_3)
  have d: "p_offset (align (new_put\<lparr>p_offset := 5\<rparr>) 4) = 8"
    by (simp add: align_def Let_def put_def)
  have e: "align (new_put\<lparr>p_offset := 8\<rparr>) 4 = new_put\<lparr>p_offset := 8\<rparr>"
    using align_pads_with_zeros[OF b n, of 8] by simp
  show ?thesis using a n c d e by simp
qed

subsection \<open>Little-endian bytes\<close>

text \<open>The four bytes of a value modulo \<open>2 ^ 32\<close>, least significant first.\<close>

definition littleEndian32 :: "int \<Rightarrow> byte list" where
  "littleEndian32 v =
     [word_of_int (v mod 256), word_of_int (v div 256 mod 256),
      word_of_int (v div 65536 mod 256), word_of_int (v div 16777216 mod 256)]"

text \<open>The eight bytes of a value modulo \<open>2 ^ 64\<close>, least significant first.\<close>

definition littleEndian64 :: "int \<Rightarrow> byte list" where
  "littleEndian64 v = littleEndian32 v @ littleEndian32 (v div 4294967296)"

lemma int32_shift: "\<exists>q. int32 v = v + 4294967296 * q"
proof -
  have "(v + 2147483648) mod 4294967296
      = (v + 2147483648) - 4294967296 * ((v + 2147483648) div 4294967296)"
    by (simp add: minus_mult_div_eq_mod)
  then have "int32 v = v + 4294967296 * (- ((v + 2147483648) div 4294967296))"
    by (simp add: int32_def)
  then show ?thesis by blast
qed

lemma mod256_drop:
  fixes x q :: int
  shows "(16777216 * q + x) mod 256 = x mod 256"
    and "(65536 * q + x) mod 256 = x mod 256"
    and "(256 * q + x) mod 256 = x mod 256"
    and "(x + 4294967296 * q) mod 256 = x mod 256"
proof -
  have "(256 * (65536 * q) + x) mod 256 = x mod 256" by (rule mod_mult_self4)
  then show "(16777216 * q + x) mod 256 = x mod 256" by simp
  have "(256 * (256 * q) + x) mod 256 = x mod 256" by (rule mod_mult_self4)
  then show "(65536 * q + x) mod 256 = x mod 256" by simp
  show "(256 * q + x) mod 256 = x mod 256" by (rule mod_mult_self4)
  have "(x + 256 * (16777216 * q)) mod 256 = x mod 256" by (rule mod_mult_self2)
  then show "(x + 4294967296 * q) mod 256 = x mod 256" by simp
qed

lemma shifted_bytes:
  fixes v q :: int
  shows "(v + 4294967296 * q) mod 256 = v mod 256"
    and "(v + 4294967296 * q) div 256 mod 256 = v div 256 mod 256"
    and "(v + 4294967296 * q) div 65536 mod 256 = v div 65536 mod 256"
    and "(v + 4294967296 * q) div 16777216 mod 256 = v div 16777216 mod 256"
proof -
  show "(v + 4294967296 * q) mod 256 = v mod 256" by (rule mod256_drop(4))
  have "(v + (16777216 * q) * 256) div 256 = 16777216 * q + v div 256"
    by (rule div_mult_self1) simp
  then have "(v + 4294967296 * q) div 256 = 16777216 * q + v div 256" by simp
  then show "(v + 4294967296 * q) div 256 mod 256 = v div 256 mod 256"
    by (simp only: mod256_drop(1))
  have "(v + (65536 * q) * 65536) div 65536 = 65536 * q + v div 65536"
    by (rule div_mult_self1) simp
  then have "(v + 4294967296 * q) div 65536 = 65536 * q + v div 65536" by simp
  then show "(v + 4294967296 * q) div 65536 mod 256 = v div 65536 mod 256"
    by (simp only: mod256_drop(2))
  have "(v + (256 * q) * 16777216) div 16777216 = 256 * q + v div 16777216"
    by (rule div_mult_self1) simp
  then have "(v + 4294967296 * q) div 16777216 = 256 * q + v div 16777216" by simp
  then show "(v + 4294967296 * q) div 16777216 mod 256 = v div 16777216 mod 256"
    by (simp only: mod256_drop(3))
qed

lemma int32_bytes:
  "int32 v mod 256 = v mod 256"
  "int32 v div 256 mod 256 = v div 256 mod 256"
  "int32 v div 65536 mod 256 = v div 65536 mod 256"
  "int32 v div 16777216 mod 256 = v div 16777216 mod 256"
proof -
  obtain q where q: "int32 v = v + 4294967296 * q" using int32_shift by blast
  show "int32 v mod 256 = v mod 256"
    "int32 v div 256 mod 256 = v div 256 mod 256"
    "int32 v div 65536 mod 256 = v div 65536 mod 256"
    "int32 v div 16777216 mod 256 = v div 16777216 mod 256"
    unfolding q by (rule shifted_bytes)+
qed

lemma word32le_bytes:
  "Put_inv ps \<Longrightarrow> buffer (word32le ps v) = buffer ps @ littleEndian32 v"
  by (simp add: buffer_inv Put_inv_word32le)
     (simp add: word32le_def littleEndian32_def shifted_byte_def upt_rec int32_bytes)

lemma byte_of_int_mod: "(word_of_int (x mod 256) :: 8 word) = word_of_int x"
  by (simp add: word_of_int_eq_iff take_bit_eq_mod)

lemma littleEndian32_bytes:
  "littleEndian32 v = [word_of_int v, word_of_int (v div 256), word_of_int (v div 65536),
                       word_of_int (v div 16777216)]"
  by (simp add: littleEndian32_def byte_of_int_mod)

lemma littleEndian32_shift: "littleEndian32 (v + 4294967296 * q) = littleEndian32 v"
  unfolding littleEndian32_def by (simp only: shifted_bytes)

lemma littleEndian32_cong:
  assumes "x mod 4294967296 = y mod 4294967296"
  shows "littleEndian32 x = littleEndian32 (y :: int)"
proof -
  have x: "x = x mod 4294967296 + 4294967296 * (x div 4294967296)" by simp
  have y: "y = y mod 4294967296 + 4294967296 * (y div 4294967296)" by simp
  have "littleEndian32 x = littleEndian32 (x mod 4294967296)"
    using littleEndian32_shift[of "x mod 4294967296" "x div 4294967296"] x by simp
  moreover have "littleEndian32 y = littleEndian32 (y mod 4294967296)"
    using littleEndian32_shift[of "y mod 4294967296" "y div 4294967296"] y by simp
  ultimately show ?thesis using assms by simp
qed

lemma int32_mod: "int32 x mod 4294967296 = x mod 4294967296"
proof -
  obtain q where q: "int32 x = x + 4294967296 * q" using int32_shift by blast
  show ?thesis unfolding q by (rule mod_mult_self2)
qed

lemma int32_range: "- 2147483648 \<le> int32 x \<and> int32 x < 2147483648"
proof -
  have "0 \<le> (x + 2147483648) mod 4294967296" "(x + 2147483648) mod 4294967296 < 4294967296"
    by simp_all
  then show ?thesis by (simp add: int32_def)
qed

lemma int32_id: "- 2147483648 \<le> x \<Longrightarrow> x < 2147483648 \<Longrightarrow> int32 x = x"
  by (simp add: int32_def)

section \<open>JavaScript values\<close>

text \<open>
  A JavaScript number: a finite value (every double is a rational), \<^verbatim>\<open>NaN\<close>, or one of
  the infinities.
\<close>

datatype JSNumber = Finite rat | NaN | PosInfinity | NegInfinity

text \<open>
  An instance of the \<^verbatim>\<open>Long\<close> class of the \<^verbatim>\<open>long\<close> package: two halves, each a signed
  32-bit integer, and the \<^verbatim>\<open>unsigned\<close> flag.
\<close>

record Long =
  low :: int
  high :: int
  unsigned :: bool

text \<open>
  The values a marshaller can be handed (\<^verbatim>\<open>data: unknown\<close>). \<open>JLongLike\<close> is a plain
  object with the properties of \<^verbatim>\<open>interface LongLike\<close>; \<open>JOther\<close> stands for any other
  value that is neither \<^verbatim>\<open>null\<close> nor \<^verbatim>\<open>undefined\<close> and has none of these properties.
  Strings are sequences of 8-bit characters.
\<close>

datatype JSValue =
    JNumber JSNumber
  | JString string
  | JBoolean bool
  | JLong Long
  | JLongLike JSNumber JSNumber bool
  | JArray "JSValue list"
  | JUndefined
  | JNull
  | JOther

text \<open>Rounding towards zero, and the conversion ToInt32 that \<^verbatim>\<open>| 0\<close> and \<^verbatim>\<open>>>\<close> apply.\<close>

definition trunc :: "rat \<Rightarrow> int" where
  "trunc r = (if r < 0 then - \<lfloor>- r\<rfloor> else \<lfloor>r\<rfloor>)"

fun number_trunc :: "JSNumber \<Rightarrow> int" where
  "number_trunc (Finite r) = trunc r"
| "number_trunc _ = 0"

definition toInt32 :: "JSNumber \<Rightarrow> int" where
  "toInt32 n = int32 (number_trunc n)"

text \<open>The comparisons \<^verbatim>\<open>data > max\<close> and \<^verbatim>\<open>data < min\<close> against a finite bound.\<close>

fun number_gt :: "JSNumber \<Rightarrow> rat \<Rightarrow> bool" where
  "number_gt (Finite r) m = (m < r)"
| "number_gt PosInfinity m = True"
| "number_gt _ m = False"

fun number_lt :: "JSNumber \<Rightarrow> rat \<Rightarrow> bool" where
  "number_lt (Finite r) m = (r < m)"
| "number_lt NegInfinity m = True"
| "number_lt _ m = False"

section \<open>The long package\<close>

text \<open>
  The repository imports \<^verbatim>\<open>Long\<close> from the npm package \<^verbatim>\<open>long\<close>; the functions of that
  package which \<^verbatim>\<open>makeLong\<close> and \<^verbatim>\<open>checkLong\<close> call are modelled here after the package's
  implementation, as integers with the 64-bit wrap-around written out.
\<close>

text \<open>The 64 bits of a \<^verbatim>\<open>Long\<close>, read as an unsigned number.\<close>

definition Long_bits :: "Long \<Rightarrow> int" where
  "Long_bits l = (high l mod 2 ^ 32) * 2 ^ 32 + low l mod 2 ^ 32"

text \<open>The constructor: \<^verbatim>\<open>this.low = low | 0; this.high = high | 0; this.unsigned = !!unsigned\<close>.\<close>

definition fromBits :: "int \<Rightarrow> int \<Rightarrow> bool \<Rightarrow> Long" where
  "fromBits lo hi u = \<lparr>low = int32 lo, high = int32 hi, unsigned = u\<rparr>"

definition Long_of_bits :: "int \<Rightarrow> bool \<Rightarrow> Long" where
  "Long_of_bits w u = fromBits w (w div 2 ^ 32) u"

text \<open>The integer a \<^verbatim>\<open>Long\<close> stands for.\<close>

definition Long_value :: "Long \<Rightarrow> int" where
  "Long_value l =
     (if unsigned l \<or> Long_bits l < 2 ^ 63 then Long_bits l else Long_bits l - 2 ^ 64)"

definition Long_ZERO :: Long where "Long_ZERO = fromBits 0 0 False"
definition Long_UZERO :: Long where "Long_UZERO = fromBits 0 0 True"
definition Long_MAX_VALUE :: Long where "Long_MAX_VALUE = fromBits 0xFFFFFFFF 0x7FFFFFFF False"
definition Long_MIN_VALUE :: Long where "Long_MIN_VALUE = fromBits 0 0x80000000 False"
definition Long_MAX_UNSIGNED_VALUE :: Long where
  "Long_MAX_UNSIGNED_VALUE = fromBits 0xFFFFFFFF 0xFFFFFFFF True"

text \<open>\<^verbatim>\<open>Long.prototype.neg\<close>: two's complement negation, the flag kept.\<close>

definition Long_neg :: "Long \<Rightarrow> Long" where
  "Long_neg l = Long_of_bits (- Long_bits l) (unsigned l)"

text \<open>\<^verbatim>\<open>Long.fromNumber(value, unsigned)\<close>.\<close>

fun fromNumber :: "JSNumber \<Rightarrow> bool \<Rightarrow> Long" where
  "fromNumber NaN u = (if u then Long_UZERO else Long_ZERO)"
| "fromNumber PosInfinity u = (if u then Long_MAX_UNSIGNED_VALUE else Long_MAX_VALUE)"
| "fromNumber NegInfinity u = (if u then Long_UZERO else Long_MIN_VALUE)"
| "fromNumber (Finite r) u =
     (if u then
        (if r < 0 then Long_UZERO
         else if 2 ^ 64 \<le> r then Long_MAX_UNSIGNED_VALUE
         else Long_of_bits (trunc r) u)
      else
        (if r \<le> - (2 ^ 63) then Long_MIN_VALUE
         else if 2 ^ 63 \<le> r + 1 then Long_MAX_VALUE
         else Long_of_bits (trunc r) u))"

text \<open>The value of a digit character in \<^verbatim>\<open>parseInt\<close>, if it is one.\<close>

definition digit_value :: "char \<Rightarrow> nat option" where
  "digit_value c =
     (let n = of_char c :: nat in
      if 48 \<le> n \<and> n \<le> 57 then Some (n - 48)
      else if 97 \<le> n \<and> n \<le> 122 then Some (n - 87)
      else if 65 \<le> n \<and> n \<le> 90 then Some (n - 55)
      else None)"

text \<open>The digits of the longest prefix that \<^verbatim>\<open>parseInt(chunk, radix)\<close> reads.\<close>

fun digit_prefix :: "nat \<Rightarrow> string \<Rightarrow> nat list" where
  "digit_prefix radix [] = []"
| "digit_prefix radix (c # cs) =
     (case digit_value c of
        None \<Rightarrow> []
      | Some d \<Rightarrow> if d < radix then d # digit_prefix radix cs else [])"

definition digits_value :: "nat \<Rightarrow> nat list \<Rightarrow> nat" where
  "digits_value radix ds = foldl (\<lambda>acc d. acc * radix + d) 0 ds"

definition is_space :: "char \<Rightarrow> bool" where
  "is_space c = (of_char c \<in> {9, 10, 11, 12, 13, 32, 160 :: nat})"

text \<open>
  \<^verbatim>\<open>parseInt(chunk, radix)\<close>: leading white space, a sign, for radix 16 a \<^verbatim>\<open>0x\<close> prefix,
  then digits; \<open>None\<close> is \<^verbatim>\<open>NaN\<close>.
\<close>

definition parseInt :: "string \<Rightarrow> nat \<Rightarrow> int option" where
  "parseInt chunk radix =
     (let s = dropWhile is_space chunk;
          neg = (s \<noteq> [] \<and> hd s = CHR ''-'');
          s1 = (if s \<noteq> [] \<and> (hd s = CHR ''-'' \<or> hd s = CHR ''+'') then tl s else s);
          s2 = (if radix = 16 \<and> (take 2 s1 = ''0x'' \<or> take 2 s1 = ''0X'') then drop 2 s1 else s1);
          ds = digit_prefix radix s2
      in if ds = [] then None
         else Some (if neg then - int (digits_value radix ds) else int (digits_value radix ds)))"

text \<open>
  The loop of \<^verbatim>\<open>Long.fromString\<close>: eight characters at a time,
  \<^verbatim>\<open>result = result.mul(radix ^ size).add(fromNumber(parseInt(chunk, radix)))\<close>, in 64-bit
  arithmetic; \<^verbatim>\<open>fromNumber(NaN)\<close> is zero.
\<close>

function fromString_loop :: "nat \<Rightarrow> string \<Rightarrow> int \<Rightarrow> int" where
  "fromString_loop radix str result =
     (if str = [] then result
      else
        let chunk = take 8 str;
            v = (case parseInt chunk radix of None \<Rightarrow> 0 | Some i \<Rightarrow> i)
        in fromString_loop radix (drop 8 str)
             ((result * int (radix ^ length chunk) + v) mod 2 ^ 64))"
  by pat_completeness auto
termination
  by (relation "measure (\<lambda>(radix, str, result). length str)") auto

datatype LongError = EmptyString | RadixRange | InteriorHyphen

text \<open>\<^verbatim>\<open>Long.fromString(str, unsigned, radix)\<close>.\<close>

fun fromString :: "string \<Rightarrow> bool \<Rightarrow> nat \<Rightarrow> LongError + Long" where
  "fromString [] u radix = Inl EmptyString"
| "fromString (c # cs) u radix =
     (if c # cs \<in> {''NaN'', ''Infinity'', ''+Infinity'', ''-Infinity''}
        then Inr (if u then Long_UZERO else Long_ZERO)
      else if radix < 2 \<or> 36 < radix then Inl RadixRange
      else if CHR ''-'' \<in> set cs then Inl InteriorHyphen
      else if c = CHR ''-'' then
        (case fromString cs u radix of Inl e \<Rightarrow> Inl e | Inr l \<Rightarrow> Inr (Long_neg l))
      else Inr (Long_of_bits (fromString_loop radix (c # cs) 0) u))"

text \<open>The digits of a natural number, most significant first, in lower case.\<close>

definition digit_char :: "nat \<Rightarrow> char" where
  "digit_char d = ''0123456789abcdefghijklmnopqrstuvwxyz'' ! d"

function nat_digits :: "nat \<Rightarrow> nat \<Rightarrow> string" where
  "nat_digits radix n =
     (if radix < 2 \<or> n < radix then [digit_char n]
      else nat_digits radix (n div radix) @ [digit_char (n mod radix)])"
  by pat_completeness auto
termination
  by (relation "measure (\<lambda>(radix, n). n)") auto

text \<open>\<^verbatim>\<open>Long.prototype.toString(radix)\<close>: the numeral of the value, \<^verbatim>\<open>-\<close> first if negative.\<close>

definition Long_toString :: "Long \<Rightarrow> nat \<Rightarrow> string" where
  "Long_toString l radix =
     (let v = Long_value l in
      if v < 0 then CHR ''-'' # nat_digits radix (nat (- v)) else nat_digits radix (nat v))"

text \<open>\<^verbatim>\<open>Long.prototype.eq\<close>, \<^verbatim>\<open>isNegative\<close>, \<^verbatim>\<open>compare\<close>, \<^verbatim>\<open>gt\<close> and \<^verbatim>\<open>lt\<close>.\<close>

definition Long_eq :: "Long \<Rightarrow> Long \<Rightarrow> bool" where
  "Long_eq a b =
     (if unsigned a \<noteq> unsigned b \<and> high a < 0 \<and> high b < 0 then False
      else high a = high b \<and> low a = low b)"

definition isNegative :: "Long \<Rightarrow> bool" where
  "isNegative l = (\<not> unsigned l \<and> high l < 0)"

definition Long_compare :: "Long \<Rightarrow> Long \<Rightarrow> int" where
  "Long_compare a b =
     (if Long_eq a b then 0
      else if isNegative a \<and> \<not> isNegative b then - 1
      else if \<not> isNegative a \<and> isNegative b then 1
      else if \<not> unsigned a then
        (if isNegative (Long_of_bits (Long_bits a - Long_bits b) (unsigned a)) then - 1 else 1)
      else if high a mod 2 ^ 32 < high b mod 2 ^ 32
              \<or> (high b = high a \<and> low a mod 2 ^ 32 < low b mod 2 ^ 32)
        then - 1 else 1)"

definition Long_gt :: "Long \<Rightarrow> Long \<Rightarrow> bool" where
  "Long_gt a b = (0 < Long_compare a b)"

definition Long_lt :: "Long \<Rightarrow> Long \<Rightarrow> bool" where
  "Long_lt a b = (Long_compare a b < 0)"


section \<open>Simple marshallers (lib/marshallers)\<close>

text \<open>
  One constructor for each \<^verbatim>\<open>throw\<close> of the module, named after its message.
  \<open>Only53Bit\<close>, \<open>StringConversion\<close> and \<open>ObjectConversion\<close> are the errors that
  \<^verbatim>\<open>makeLong\<close> catches and throws again with a longer message;
  \<open>ValueDoesNotMatchSignature\<close> is the error of the marshalling driver below.
\<close>

datatype MarshallError =
    NotOfTypeString
  | ContainsNullByte
  | TooLongForSignature
  | MaxNestingExceeded
  | BadSignature SignatureError
  | NotOfTypeNumber
  | NotAnInteger
  | NumberOutsideRange
  | NotOfTypeBoolean
  | NotANumber
  | Only53Bit MarshallError
  | StringConversion LongError
  | DidNotConvertCorrectly
  | ObjectConversion
  | UnsignedIntoSigned
  | SignedIntoUnsigned
  | OutOfRange64
  | UnknownDataTypeFormat
  | ValueDoesNotMatchSignature

definition checkValidString :: "JSValue \<Rightarrow> MarshallError + string" where
  "checkValidString data =
     (case data of
        JString s \<Rightarrow> if CHR 0x00 \<in> set s then Inl ContainsNullByte else Inr s
      | _ \<Rightarrow> Inl NotOfTypeString)"

text \<open>
  The loop of \<^verbatim>\<open>checkValidSignature\<close>: the count is tested at the start of each
  iteration, then updated by the character.
\<close>

fun parenLoop :: "string \<Rightarrow> int \<Rightarrow> bool" where
  "parenLoop [] parenCount = True"
| "parenLoop (c # cs) parenCount =
     (if 32 < parenCount then False
      else parenLoop cs
        (if c = CHR ''('' then parenCount + 1
         else if c = CHR '')'' then parenCount - 1
         else parenCount))"

definition checkValidSignature :: "string \<Rightarrow> MarshallError + unit" where
  "checkValidSignature data =
     (if 255 < length data then Inl TooLongForSignature
      else if \<not> parenLoop data 0 then Inl MaxNestingExceeded
      else (case parseSignature data of Inl e \<Rightarrow> Inl (BadSignature e) | Inr tree \<Rightarrow> Inr ()))"

definition checkRange :: "rat \<Rightarrow> rat \<Rightarrow> JSNumber \<Rightarrow> MarshallError + unit" where
  "checkRange minValue maxValue data =
     (if number_gt data maxValue \<or> number_lt data minValue then Inl NumberOutsideRange else Inr ())"

text \<open>\<^verbatim>\<open>checkInteger\<close>: \<^verbatim>\<open>Math.floor(data) !== data\<close> holds for \<^verbatim>\<open>NaN\<close>, not for the infinities.\<close>

definition checkInteger :: "JSValue \<Rightarrow> MarshallError + JSNumber" where
  "checkInteger data =
     (case data of
        JNumber (Finite r) \<Rightarrow> if of_int \<lfloor>r\<rfloor> \<noteq> r then Inl NotAnInteger else Inr (Finite r)
      | JNumber NaN \<Rightarrow> Inl NotAnInteger
      | JNumber n \<Rightarrow> Inr n
      | _ \<Rightarrow> Inl NotOfTypeNumber)"

text \<open>\<^verbatim>\<open>checkInteger(data); checkRange(lo, hi, data)\<close>, as the integer marshallers call them.\<close>

definition checkIntegerRange :: "rat \<Rightarrow> rat \<Rightarrow> JSValue \<Rightarrow> MarshallError + JSNumber" where
  "checkIntegerRange minValue maxValue data =
     (case checkInteger data of
        Inl e \<Rightarrow> Inl e
      | Inr n \<Rightarrow> (case checkRange minValue maxValue n of Inl e \<Rightarrow> Inl e | Inr u \<Rightarrow> Inr n))"

text \<open>\<^verbatim>\<open>checkBoolean\<close>, returning \<^verbatim>\<open>data ? 1 : 0\<close> for the accepted values.\<close>

definition checkBoolean :: "JSValue \<Rightarrow> MarshallError + int" where
  "checkBoolean data =
     (case data of
        JBoolean b \<Rightarrow> Inr (if b then 1 else 0)
      | JNumber (Finite r) \<Rightarrow> if r = 0 then Inr 0 else if r = 1 then Inr 1 else Inl NotOfTypeBoolean
      | _ \<Rightarrow> Inl NotOfTypeBoolean)"

subsection \<open>64-bit integers\<close>

definition upper_char :: "char \<Rightarrow> char" where
  "upper_char c =
     (case map_of (zip ''abcdefghijklmnopqrstuvwxyz'' ''ABCDEFGHIJKLMNOPQRSTUVWXYZ'') c of
        Some u \<Rightarrow> u
      | None \<Rightarrow> c)"

definition toUpperCase :: "string \<Rightarrow> string" where
  "toUpperCase s = map upper_char s"

definition trim :: "string \<Rightarrow> string" where
  "trim s = rev (dropWhile is_space (rev (dropWhile is_space s)))"

definition is_decimal_digit :: "char \<Rightarrow> bool" where
  "is_decimal_digit c = (48 \<le> (of_char c :: nat) \<and> (of_char c :: nat) \<le> 57)"

text \<open>
  \<^verbatim>\<open>strVal.replace(/^0+(?=\d)/, "")\<close>: the longest run of leading zeroes that is still
  followed by a decimal digit is removed.
\<close>

fun dropLeadingZeroes :: "string \<Rightarrow> string" where
  "dropLeadingZeroes (z # c # rest) =
     (if z = CHR ''0'' \<and> is_decimal_digit c then
        (if c = CHR ''0'' then dropLeadingZeroes (c # rest) else c # rest)
      else z # c # rest)"
| "dropLeadingZeroes s = s"

text \<open>The radix and the digits \<^verbatim>\<open>makeLong\<close> hands to \<^verbatim>\<open>Long.fromString\<close>.\<close>

definition radixAndDigits :: "string \<Rightarrow> nat \<times> string" where
  "radixAndDigits val =
     (let strVal = toUpperCase (trim val) in
      if take 2 strVal = ''0X'' then (16, dropLeadingZeroes (drop 2 strVal))
      else if take 3 strVal = ''-0X'' then (16, dropLeadingZeroes (CHR ''-'' # drop 3 strVal))
      else (10, dropLeadingZeroes strVal))"

definition makeLong :: "JSValue \<Rightarrow> bool \<Rightarrow> MarshallError + Long" where
  "makeLong val signed' =
     (case val of
        JLong l \<Rightarrow> Inr l
      | JNumber n \<Rightarrow>
          (case checkIntegerRange (if signed' then - 0x1fffffffffffff else 0) 0x1fffffffffffff (JNumber n) of
             Inl e \<Rightarrow> Inl (Only53Bit e)
           | Inr n' \<Rightarrow> Inr (fromNumber n' (\<not> signed')))
      | JString s \<Rightarrow>
          (case radixAndDigits s of
             (radix, strVal) \<Rightarrow>
               (case fromString strVal (\<not> signed') radix of
                  Inl e \<Rightarrow> Inl (StringConversion e)
                | Inr data \<Rightarrow>
                    if toUpperCase (Long_toString data radix) \<noteq> strVal then Inl DidNotConvertCorrectly
                    else Inr data))
      | JUndefined \<Rightarrow> Inl ObjectConversion
      | JNull \<Rightarrow> Inl ObjectConversion
      | JLongLike lo hi u \<Rightarrow> Inr (fromBits (toInt32 lo) (toInt32 hi) u)
      | _ \<Rightarrow> Inr (fromBits 0 0 False))"

definition checkLong :: "JSValue \<Rightarrow> bool \<Rightarrow> MarshallError + Long" where
  "checkLong data signed' =
     (case (case data of JLong l \<Rightarrow> Inr l | _ \<Rightarrow> makeLong data signed') of
        Inl e \<Rightarrow> Inl e
      | Inr longData \<Rightarrow>
          if signed' then
            (if unsigned longData then Inl UnsignedIntoSigned
             else if Long_gt longData Long_MAX_VALUE \<or> Long_lt longData Long_MIN_VALUE
               then Inl OutOfRange64
             else Inr longData)
          else
            (if \<not> unsigned longData then Inl SignedIntoUnsigned
             else if Long_gt longData Long_MAX_UNSIGNED_VALUE \<or> Long_lt longData Long_ZERO
               then Inl OutOfRange64
             else Inr longData))"




subsection \<open>The marshallers of the basic types\<close>

text \<open>
  \<^verbatim>\<open>Buffer.from(data, "utf8")\<close> on a string of 8-bit characters: one byte below 128, two
  bytes from 128 on.
\<close>

definition utf8 :: "string \<Rightarrow> byte list" where
  "utf8 s =
     concat (map (\<lambda>c. let n = of_char c :: nat in
                       if n < 128 then [of_nat n]
                       else [of_nat (192 + n div 64), of_nat (128 + n mod 64)]) s)"

text \<open>\<^verbatim>\<open>Buffer.from(data, "ascii")\<close>: one byte for each character.\<close>

definition ascii :: "string \<Rightarrow> byte list" where
  "ascii s = map (\<lambda>c. of_nat (of_char c :: nat)) s"

text \<open>\<^verbatim>\<open>buff.writeInt16LE(v, 0)\<close> and \<^verbatim>\<open>buff.writeInt32LE(v, 0)\<close> for a value in range.\<close>

definition writeInt16LE :: "int \<Rightarrow> byte list" where
  "writeInt16LE v = [word_of_int (v mod 256), word_of_int (v div 256 mod 256)]"

definition writeInt32LE :: "int \<Rightarrow> byte list" where
  "writeInt32LE v =
     [word_of_int (v mod 256), word_of_int (v div 256 mod 256),
      word_of_int (v div 65536 mod 256), word_of_int (v div 16777216 mod 256)]"

text \<open>
  \<^verbatim>\<open>MakeSimpleMarshaller(signature).marshall(ps, data)\<close>: each case runs its
  \<^verbatim>\<open>check\<close> first, then writes. The \<^verbatim>\<open>switch\<close> compares the whole signature string.
  The parameter \<open>writeDoubleLE\<close> is \<^verbatim>\<open>Buffer.writeDoubleLE\<close>, the eight bytes of the
  IEEE-754 encoding, which is not embedded.
\<close>

definition MakeSimpleMarshaller ::
  "(rat \<Rightarrow> byte list) \<Rightarrow> string \<Rightarrow> Put \<Rightarrow> JSValue \<Rightarrow> MarshallError + Put" where
  "MakeSimpleMarshaller writeDoubleLE signature ps data =
     (if signature = ''o'' \<or> signature = ''s'' then
        (case checkValidString data of
           Inl e \<Rightarrow> Inl e
         | Inr s \<Rightarrow>
             let ps1 = align ps 4; buff = utf8 s in
             Inr ((word8 (put (word32le ps1 (int (length buff))) buff) 0)
                    \<lparr>p_offset := p_offset ps1 + (5 + length buff)\<rparr>))
      else if signature = ''g'' then
        (case checkValidString data of
           Inl e \<Rightarrow> Inl e
         | Inr s \<Rightarrow>
             (case checkValidSignature s of
                Inl e \<Rightarrow> Inl e
              | Inr u \<Rightarrow>
                  let buff = ascii s in
                  Inr ((word8 (put (word8 ps (int (length s))) buff) 0)
                         \<lparr>p_offset := p_offset ps + (2 + length buff)\<rparr>)))
      else if signature = ''y'' then
        (case checkIntegerRange 0 0xff data of
           Inl e \<Rightarrow> Inl e
         | Inr n \<Rightarrow> Inr ((word8 ps (number_trunc n))\<lparr>p_offset := p_offset ps + 1\<rparr>))
      else if signature = ''b'' then
        (case checkBoolean data of
           Inl e \<Rightarrow> Inl e
         | Inr val \<Rightarrow>
             let ps1 = align ps 4 in
             Inr ((word32le ps1 val)\<lparr>p_offset := p_offset ps1 + 4\<rparr>))
      else if signature = ''n'' then
        (case checkIntegerRange (- 0x7fff - 1) 0x7fff data of
           Inl e \<Rightarrow> Inl e
         | Inr n \<Rightarrow>
             let ps1 = align ps 2 in
             Inr ((put ps1 (writeInt16LE (number_trunc n)))\<lparr>p_offset := p_offset ps1 + 2\<rparr>))
      else if signature = ''q'' then
        (case checkIntegerRange 0 0xffff data of
           Inl e \<Rightarrow> Inl e
         | Inr n \<Rightarrow>
             let ps1 = align ps 2 in
             Inr ((word16le ps1 (number_trunc n))\<lparr>p_offset := p_offset ps1 + 2\<rparr>))
      else if signature = ''i'' then
        (case checkIntegerRange (- 0x7fffffff - 1) 0x7fffffff data of
           Inl e \<Rightarrow> Inl e
         | Inr n \<Rightarrow>
             let ps1 = align ps 4 in
             Inr ((put ps1 (writeInt32LE (number_trunc n)))\<lparr>p_offset := p_offset ps1 + 4\<rparr>))
      else if signature = ''u'' then
        (case checkIntegerRange 0 0xffffffff data of
           Inl e \<Rightarrow> Inl e
         | Inr n \<Rightarrow>
             let ps1 = align ps 4 in
             Inr ((word32le ps1 (number_trunc n))\<lparr>p_offset := p_offset ps1 + 4\<rparr>))
      else if signature = ''t'' \<or> signature = ''x'' then
        (case checkLong data (signature = ''x'') of
           Inl e \<Rightarrow> Inl e
         | Inr longData \<Rightarrow>
             let ps1 = align ps 8 in
             Inr ((word32le (word32le ps1 (low longData)) (high longData))
                    \<lparr>p_offset := p_offset ps1 + 8\<rparr>))
      else if signature = ''d'' then
        (case data of
           JNumber NaN \<Rightarrow> Inl NotANumber
         | JNumber (Finite r) \<Rightarrow>
             let ps1 = align ps 8 in
             Inr ((put ps1 (writeDoubleLE r))\<lparr>p_offset := p_offset ps1 + 8\<rparr>)
         | JNumber n \<Rightarrow> Inl NumberOutsideRange
         | _ \<Rightarrow> Inl NotOfTypeNumber)
      else Inl UnknownDataTypeFormat)"

section \<open>The marshalling driver (lib/marshall)\<close>

text \<open>Modelled from the spec: the types whose natural alignment is 8.\<close>

definition aligned8 :: "SignatureNode \<Rightarrow> bool" where
  "aligned8 ele = (type ele \<in> set ''xtd{('')"

text \<open>
  Modelled from the spec: the function \<^verbatim>\<open>marshall(signature, data, offset)\<close> of
  \<^verbatim>\<open>lib/marshall\<close>, which the tests and the message codec call, is not among the source
  files. The specification (4.2) gives its contract: the values are written in the order
  of the signature into a put stream whose running offset starts at the given offset; a
  struct or dict entry is aligned to 8 and its members follow; an array reserves a
  32-bit length slot, aligns to the element's alignment, encodes the elements, and
  back-patches the length with the bytes of the elements (the slot and its alignment
  pad excluded); a variant writes its signature string, then the value encoded per that
  signature; a basic type is written by its marshaller above. The values must correspond
  to the signature.
\<close>

function writeValue ::
    "(rat \<Rightarrow> byte list) \<Rightarrow> Put \<Rightarrow> SignatureNode \<Rightarrow> JSValue \<Rightarrow> MarshallError + Put"
  and writeStruct ::
    "(rat \<Rightarrow> byte list) \<Rightarrow> Put \<Rightarrow> SignatureNode list \<Rightarrow> JSValue list \<Rightarrow> MarshallError + Put"
  and writeElements ::
    "(rat \<Rightarrow> byte list) \<Rightarrow> Put \<Rightarrow> SignatureNode \<Rightarrow> JSValue list \<Rightarrow> MarshallError + Put"
where
  "writeValue enc ps ele data =
     (if type ele = CHR ''('' \<or> type ele = CHR ''{'' then
        (case data of
           JArray vs \<Rightarrow> writeStruct enc (align ps 8) (child ele) vs
         | _ \<Rightarrow> Inl ValueDoesNotMatchSignature)
      else if type ele = CHR ''a'' then
        (case (child ele, data) of
           ([element], JArray vs) \<Rightarrow>
             let ps1 = align ps 4;
                 slot = new_put\<lparr>p_offset := p_offset ps1 + 4\<rparr>;
                 start = (if aligned8 element then align slot 8 else slot)
             in (case writeElements enc start element vs of
                   Inl e \<Rightarrow> Inl e
                 | Inr arr \<Rightarrow>
                     Inr ((put (word32le ps1 (int (p_offset arr - p_offset start))) (buffer arr))
                            \<lparr>p_offset := p_offset arr\<rparr>))
         | _ \<Rightarrow> Inl ValueDoesNotMatchSignature)
      else if type ele = CHR ''v'' then
        (case data of
           JArray [JString sig, v] \<Rightarrow>
             (case MakeSimpleMarshaller enc ''g'' ps (JString sig) of
                Inl e \<Rightarrow> Inl e
              | Inr ps1 \<Rightarrow>
                  (case parseSignature sig of
                     Inr [inner] \<Rightarrow> writeValue enc ps1 inner v
                   | Inr _ \<Rightarrow> Inl ValueDoesNotMatchSignature
                   | Inl e \<Rightarrow> Inl (BadSignature e)))
         | _ \<Rightarrow> Inl ValueDoesNotMatchSignature)
      else MakeSimpleMarshaller enc [type ele] ps data)"
| "writeStruct enc ps [] [] = Inr ps"
| "writeStruct enc ps (ele # tree) (v # vs) =
     (case writeValue enc ps ele v of
        Inl e \<Rightarrow> Inl e
      | Inr ps1 \<Rightarrow> writeStruct enc ps1 tree vs)"
| "writeStruct enc ps [] (v # vs) = Inl ValueDoesNotMatchSignature"
| "writeStruct enc ps (ele # tree) [] = Inl ValueDoesNotMatchSignature"
| "writeElements enc ps element [] = Inr ps"
| "writeElements enc ps element (v # vs) =
     (case writeValue enc ps element v of
        Inl e \<Rightarrow> Inl e
      | Inr ps1 \<Rightarrow> writeElements enc ps1 element vs)"
  by pat_completeness auto
termination
  by (relation "measure (\<lambda>x. case x of
        Inl (enc, ps, ele, data) \<Rightarrow> 2 * size data + 1
      | Inr (Inl (enc, ps, tree, vs)) \<Rightarrow> 2 * size_list size vs
      | Inr (Inr (enc, ps, element, vs)) \<Rightarrow> 2 * size_list size vs)") auto

text \<open>Modelled from the spec: \<^verbatim>\<open>marshall(signature, data, offset)\<close>, returning the bytes.\<close>

definition marshallData ::
  "(rat \<Rightarrow> byte list) \<Rightarrow> string \<Rightarrow> JSValue list \<Rightarrow> nat \<Rightarrow> MarshallError + byte list" where
  "marshallData enc signature data offset =
     (case parseSignature signature of
        Inl e \<Rightarrow> Inl (BadSignature e)
      | Inr tree \<Rightarrow>
          (case writeStruct enc (new_put\<lparr>p_offset := offset\<rparr>) tree data of
             Inl e \<Rightarrow> Inl e
           | Inr ps \<Rightarrow> Inr (buffer ps)))"


declare writeValue.simps [simp del]

lemma writeValue_struct:
  "type ele = CHR ''('' \<or> type ele = CHR ''{'' \<Longrightarrow>
   writeValue enc ps ele (JArray vs) = writeStruct enc (align ps 8) (child ele) vs"
  by (simp add: writeValue.simps)

lemma writeValue_array:
  "writeValue enc ps (Node CHR ''a'' [element]) (JArray vs) =
     (case writeElements enc
             (if aligned8 element then align (new_put\<lparr>p_offset := p_offset (align ps 4) + 4\<rparr>) 8
              else new_put\<lparr>p_offset := p_offset (align ps 4) + 4\<rparr>) element vs of
        Inl e \<Rightarrow> Inl e
      | Inr arr \<Rightarrow>
          Inr ((put (word32le (align ps 4)
                  (int (p_offset arr -
                     p_offset (if aligned8 element
                               then align (new_put\<lparr>p_offset := p_offset (align ps 4) + 4\<rparr>) 8
                               else new_put\<lparr>p_offset := p_offset (align ps 4) + 4\<rparr>))))
                (buffer arr))\<lparr>p_offset := p_offset arr\<rparr>))"
  by (simp add: writeValue.simps Let_def)

lemma writeValue_variant:
  "writeValue enc ps (Node CHR ''v'' cs) (JArray [JString sig, v]) =
     (case MakeSimpleMarshaller enc ''g'' ps (JString sig) of
        Inl e \<Rightarrow> Inl e
      | Inr ps1 \<Rightarrow>
          (case parseSignature sig of
             Inr [inner] \<Rightarrow> writeValue enc ps1 inner v
           | Inr _ \<Rightarrow> Inl ValueDoesNotMatchSignature
           | Inl e \<Rightarrow> Inl (BadSignature e)))"
  by (simp add: writeValue.simps)

lemma writeValue_basic:
  "t \<notin> set ''({av'' \<Longrightarrow> writeValue enc ps (Node t cs) data = MakeSimpleMarshaller enc [t] ps data"
  by (simp add: writeValue.simps)

lemma replicate_num: "replicate (numeral k) x = x # replicate (pred_numeral k) x"
  by (simp add: numeral_eq_Suc)


lemmas put_eval = MakeSimpleMarshaller_def checkIntegerRange_def checkInteger_def checkRange_def
  align_def put_def word8_def word16le_def word32le_def buffer_def new_put_def
  writeInt16LE_def writeInt32LE_def shifted_byte_def int32_def trunc_def Let_def
  marshallData_def parse_simps KNOWN_TYPES_def BRACKET_PAIRS_def checkValidString_def
  checkValidSignature_def utf8_def ascii_def aligned8_def upt_rec replicate_num
  writeValue_struct writeValue_array writeValue_variant writeValue_basic

text \<open>
  C4. Marshalling the value list \<open>[10, 1000]\<close> under signature \<^verbatim>\<open>nn\<close> from offset 0 gives
  exactly the four bytes \<^verbatim>\<open>0a 00 e8 03\<close>: each signed 16-bit value little-endian, no
  padding between them.
\<close>

theorem marshall_nn_bytes:
  "marshallData enc ''nn'' [JNumber (Finite 10), JNumber (Finite 1000)] 0
     = Inr [0x0a, 0x00, 0xe8, 0x03]"
  by (simp add: put_eval)

section \<open>Message codec (lib/message, lib/constants)\<close>

text \<open>The header fields, \<^verbatim>\<open>HeaderFieldName\<close> of lib/constants.\<close>

datatype HeaderField =
  Path | Interface | Member | ErrorName | ReplySerial | Destination | Sender | Signature




text \<open>
  \<^verbatim>\<open>interface DBusMessage\<close>: \<^verbatim>\<open>serial\<close>, \<^verbatim>\<open>type\<close>, \<^verbatim>\<open>flags\<close> and \<^verbatim>\<open>body\<close>, each optional,
  and the properties read as \<^verbatim>\<open>message[fieldName]\<close>, \<^verbatim>\<open>signature\<close> among them.
\<close>

record DBusMessage =
  serial :: "JSNumber option"
  msg_type :: "JSNumber option"
  flags :: "JSNumber option"
  body :: "JSValue list option"
  header :: "HeaderField \<Rightarrow> JSValue option"









text \<open>An integer-valued number within the given bounds.\<close>

definition integerIn :: "rat \<Rightarrow> rat \<Rightarrow> JSNumber \<Rightarrow> bool" where
  "integerIn lo hi n =
     (case n of Finite r \<Rightarrow> of_int \<lfloor>r\<rfloor> = r \<and> lo \<le> r \<and> r \<le> hi | _ \<Rightarrow> False)"

lemma checkIntegerRange_ok:
  "integerIn lo hi n \<Longrightarrow> checkIntegerRange lo hi (JNumber n) = Inr n"
  by (auto simp add: integerIn_def checkIntegerRange_def checkInteger_def checkRange_def
      split: JSNumber.splits)






subsection \<open>The wire format of a method call\<close>



text \<open>
  \<open>writes ps bs ps'\<close>: the stream \<open>ps'\<close> holds the bytes of \<open>ps\<close> followed by \<open>bs\<close>, its
  running offset has advanced by their number, and its \<^verbatim>\<open>_length\<close> agrees with its entries.
\<close>

definition writes :: "Put \<Rightarrow> byte list \<Rightarrow> Put \<Rightarrow> bool" where
  "writes ps bs ps' =
     (Put_inv ps' \<and> buffer ps' = buffer ps @ bs \<and> p_offset ps' = p_offset ps + length bs)"











lemma put_bytes:
  "Put_inv ps \<Longrightarrow> writes ps bs ((put ps bs)\<lparr>p_offset := p_offset ps + length bs\<rparr>)"
  by (simp add: writes_def Put_inv_offset Put_inv_put buffer_offset buffer_put)



















section \<open>Proxy interfaces (lib/introspect)\<close>

text \<open>\<^verbatim>\<open>class DBusError\<close>: the D-Bus error name and the message.\<close>

record DBusError =
  errorName :: string
  errorMessage :: string

text \<open>
  \<^verbatim>\<open>DBusMethodInfo\<close> and \<^verbatim>\<open>DBusPropertyInfo\<close>; the fields \<^verbatim>\<open>name\<close> and \<^verbatim>\<open>type\<close> carry a
  prefix here.
\<close>

record DBusMethodInfo =
  m_name :: string
  inSignature :: string
  outSignature :: string

record DBusPropertyInfo =
  p_name :: string
  p_type :: string
  access :: string

text \<open>
  \<^verbatim>\<open>class DBusInterface\<close>: its name, its tables, and of its parent object the path
  (\<^verbatim>\<open>parent.name\<close>) and the service name (\<^verbatim>\<open>parent.service.name\<close>).
\<close>

record DBusInterface =
  i_name :: string
  methods :: "string \<rightharpoonup> DBusMethodInfo"
  properties :: "string \<rightharpoonup> DBusPropertyInfo"
  parent_name :: string
  service_name :: string

text \<open>
  A callback handed to the bus: a callback of the caller (named by a number), the arrow
  function that \<^verbatim>\<open>getProperty\<close> wraps around one, or the empty function
  \<^verbatim>\<open>() => {}\<close> of \<^verbatim>\<open>setProperty\<close>.
\<close>

datatype Callback = UserCallback nat | GetPropertyCallback nat | EmptyCallback

text \<open>
  A callback waiting at the bus for the broker's answer to \<^verbatim>\<open>AddMatch\<close> (it will add
  the wrapped handler to the listeners of the signal) or to \<^verbatim>\<open>RemoveMatch\<close> (it will
  delete the handler from \<^verbatim>\<open>handlerMap\<close>).
\<close>

datatype MatchCallback = AddMatchCallback string nat | RemoveMatchCallback nat

text \<open>
  What a proxy interface can see and change: its own \<^verbatim>\<open>handlerMap\<close> (handler to wrapped
  handler, functions named by numbers, \<open>nextWrapped\<close> the next fresh one), the listeners of
  the emitter \<^verbatim>\<open>bus.signals\<close>, and the calls made so far to \<^verbatim>\<open>bus.invoke\<close>,
  \<^verbatim>\<open>bus.addMatch\<close> and \<^verbatim>\<open>bus.removeMatch\<close> (the interface \<^verbatim>\<open>Bus\<close> declares these methods;
  their implementation is the session engine), the match callbacks the bus has not yet
  run, and the calls made to callbacks of the caller with their arguments.
\<close>

record World =
  handlerMap :: "nat \<rightharpoonup> nat"
  nextWrapped :: nat
  listeners :: "string \<Rightarrow> nat list"
  invokeCalls :: "(DBusMessage \<times> Callback) list"
  addMatchCalls :: "string list"
  removeMatchCalls :: "string list"
  matchCallbacks :: "MatchCallback list"
  callbackCalls :: "(nat \<times> DBusError option \<times> JSValue option) list"

text \<open>A message object with the four address properties, as the proxy builds it.\<close>

definition proxyMessage :: "string \<Rightarrow> string \<Rightarrow> string \<Rightarrow> string \<Rightarrow> DBusMessage" where
  "proxyMessage dest pth iface mem =
     \<lparr>serial = None, msg_type = None, flags = None, body = None,
      header = [Destination \<mapsto> JString dest, Path \<mapsto> JString pth,
                Interface \<mapsto> JString iface, Member \<mapsto> JString mem]\<rparr>"

text \<open>\<^verbatim>\<open>DBusInterface.call(methodName, args, callback)\<close>.\<close>

definition call :: "DBusInterface \<Rightarrow> string \<Rightarrow> JSValue list \<Rightarrow> Callback \<Rightarrow> World \<Rightarrow> World" where
  "call this methodName args callback w =
     (let message = proxyMessage (service_name this) (parent_name this) (i_name this) methodName;
          message' = (case methods this methodName of
                        Some methodInfo \<Rightarrow>
                          if inSignature methodInfo \<noteq> [] then
                            message\<lparr>body := Some args,
                                    header := (header message)(Signature \<mapsto> JString (inSignature methodInfo))\<rparr>
                          else message
                      | None \<Rightarrow> message)
      in w\<lparr>invokeCalls := invokeCalls w @ [(message', callback)]\<rparr>)"

text \<open>\<^verbatim>\<open>DBusInterface.getProperty(propertyName, callback)\<close>, the caller's callback named \<open>cb\<close>.\<close>

definition getProperty :: "DBusInterface \<Rightarrow> string \<Rightarrow> nat \<Rightarrow> World \<Rightarrow> World" where
  "getProperty this propertyName cb w =
     (let message = (proxyMessage (service_name this) (parent_name this)
                       ''org.freedesktop.DBus.Properties'' ''Get'')
                    \<lparr>body := Some [JString (i_name this), JString propertyName]\<rparr>;
          message' = message\<lparr>header := (header message)(Signature \<mapsto> JString ''ss'')\<rparr>
      in w\<lparr>invokeCalls := invokeCalls w @ [(message', GetPropertyCallback cb)]\<rparr>)"





text \<open>\<^verbatim>\<open>DBusInterface.setProperty(propertyName, value, callback?)\<close>.\<close>

definition setProperty ::
  "DBusInterface \<Rightarrow> string \<Rightarrow> JSValue \<Rightarrow> nat option \<Rightarrow> World \<Rightarrow> World" where
  "setProperty this propertyName val callback w =
     (case properties this propertyName of
        None \<Rightarrow>
          (case callback of
             Some cb \<Rightarrow>
               w\<lparr>callbackCalls := callbackCalls w @
                    [(cb,
                      Some \<lparr>errorName = ''org.freedesktop.DBus.Error.UnknownProperty'',
                            errorMessage = ''Property \"'' @ propertyName
                              @ ''\" not found on interface \"'' @ i_name this @ ''\"''\<rparr>,
                      None)]\<rparr>
           | None \<Rightarrow> w)
      | Some propertyInfo \<Rightarrow>
          (let message = (proxyMessage (service_name this) (parent_name this)
                            ''org.freedesktop.DBus.Properties'' ''Set'')
                         \<lparr>body := Some [JString (i_name this), JString propertyName,
                                        JArray [JString (p_type propertyInfo), val]]\<rparr>;
               message' = message\<lparr>header := (header message)(Signature \<mapsto> JString ''ssv'')\<rparr>
           in w\<lparr>invokeCalls := invokeCalls w @
                  [(message', case callback of Some cb \<Rightarrow> UserCallback cb | None \<Rightarrow> EmptyCallback)]\<rparr>))"

text \<open>\<^verbatim>\<open>getMatchRule(objectPath, interfaceName, signalName)\<close>.\<close>

definition getMatchRule :: "string \<Rightarrow> string \<Rightarrow> string \<Rightarrow> string" where
  "getMatchRule objectPath interfaceName signalName =
     ''type='' @ [CHR 0x27] @ ''signal'' @ [CHR 0x27] @ '',path='' @ [CHR 0x27] @ objectPath
     @ [CHR 0x27] @ '',interface='' @ [CHR 0x27] @ interfaceName @ [CHR 0x27]
     @ '',member='' @ [CHR 0x27] @ signalName @ [CHR 0x27]"

text \<open>
  \<^verbatim>\<open>DBusInterface.on(signalName, handler)\<close>; \<open>mangle\<close> is \<^verbatim>\<open>bus.mangle\<close>. With no
  listener on the signal yet it calls \<^verbatim>\<open>bus.addMatch\<close> and leaves the wrapped handler to
  the callback; otherwise it adds the wrapped handler at once.
\<close>

definition on ::
  "(string \<Rightarrow> string \<Rightarrow> string \<Rightarrow> string) \<Rightarrow> DBusInterface \<Rightarrow> string \<Rightarrow> nat \<Rightarrow> World \<Rightarrow> World" where
  "on mangle this signalName handler w =
     (let signalFullName = mangle (parent_name this) (i_name this) signalName;
          (wrappedHandler, w1) =
            (case handlerMap w handler of
               Some wrapped \<Rightarrow> (wrapped, w)
             | None \<Rightarrow>
                 (nextWrapped w,
                  w\<lparr>handlerMap := (handlerMap w)(handler \<mapsto> nextWrapped w),
                    nextWrapped := nextWrapped w + 1\<rparr>))
      in if listeners w1 signalFullName = [] then
           w1\<lparr>addMatchCalls := addMatchCalls w1
                  @ [getMatchRule (parent_name this) (i_name this) signalName],
              matchCallbacks := matchCallbacks w1 @ [AddMatchCallback signalFullName wrappedHandler]\<rparr>
         else
           w1\<lparr>listeners := (listeners w1)
                  (signalFullName := listeners w1 signalFullName @ [wrappedHandler])\<rparr>)"

text \<open>
  \<^verbatim>\<open>EventEmitter.removeListener\<close>: at most one instance of the listener is removed, the
  one added last.
\<close>

definition removeListener :: "nat \<Rightarrow> nat list \<Rightarrow> nat list" where
  "removeListener l ls = rev (remove1 l (rev ls))"

text \<open>\<^verbatim>\<open>DBusInterface.off(signalName, handler)\<close>.\<close>

definition off ::
  "(string \<Rightarrow> string \<Rightarrow> string \<Rightarrow> string) \<Rightarrow> DBusInterface \<Rightarrow> string \<Rightarrow> nat \<Rightarrow> World \<Rightarrow> World" where
  "off mangle this signalName handler w =
     (let signalFullName = mangle (parent_name this) (i_name this) signalName in
      case handlerMap w handler of
        None \<Rightarrow> w
      | Some wrappedHandler \<Rightarrow>
          (let w1 = w\<lparr>listeners := (listeners w)
                         (signalFullName := removeListener wrappedHandler (listeners w signalFullName))\<rparr>
           in if listeners w1 signalFullName = [] then
                w1\<lparr>removeMatchCalls := removeMatchCalls w1
                       @ [getMatchRule (parent_name this) (i_name this) signalName],
                   matchCallbacks := matchCallbacks w1 @ [RemoveMatchCallback handler]\<rparr>
              else w1))"

text \<open>
  The bus answers its oldest waiting match call by running the callback with
  \<^verbatim>\<open>error\<close>: with an error the callback throws; without, the \<^verbatim>\<open>AddMatch\<close> callback adds
  the wrapped handler to the listeners and the \<^verbatim>\<open>RemoveMatch\<close> callback deletes the
  handler from \<^verbatim>\<open>handlerMap\<close>. The result is the error thrown, or the new state.
\<close>

definition matchReply :: "DBusError option \<Rightarrow> World \<Rightarrow> DBusError + World" where
  "matchReply error w =
     (case matchCallbacks w of
        [] \<Rightarrow> Inr w
      | cb # rest \<Rightarrow>
          (case error of
             Some e \<Rightarrow> Inl e
           | None \<Rightarrow>
               (case cb of
                  AddMatchCallback signalFullName wrappedHandler \<Rightarrow>
                    Inr (w\<lparr>matchCallbacks := rest,
                           listeners := (listeners w)
                             (signalFullName := listeners w signalFullName @ [wrappedHandler])\<rparr>)
                | RemoveMatchCallback handler \<Rightarrow>
                    Inr (w\<lparr>matchCallbacks := rest,
                           handlerMap := (handlerMap w)(handler := None)\<rparr>))))"


subsection \<open>Claims about the proxy\<close>



text \<open>A proxy interface with empty tables, and a world in which nothing has happened.\<close>

definition emptyInterface :: DBusInterface where
  "emptyInterface = \<lparr>i_name = ''com.x.Svc'', methods = Map.empty, properties = Map.empty,
     parent_name = ''/svc'', service_name = ''com.x''\<rparr>"

definition emptyWorld :: World where
  "emptyWorld = \<lparr>handlerMap = Map.empty, nextWrapped = 0, listeners = (\<lambda>n. []),
     invokeCalls = [], addMatchCalls = [], removeMatchCalls = [], matchCallbacks = [],
     callbackCalls = []\<rparr>"

text \<open>
  C8, as stated, says that \<^verbatim>\<open>call()\<close> with an unknown method name completes with an
  UnknownMethod error and never calls \<^verbatim>\<open>bus.invoke\<close>. On an interface with no methods,
  the call is passed to the bus and no callback is run.
\<close>

theorem unknown_method_counterexample:
  "invokeCalls (call emptyInterface ''Missing'' [] (UserCallback 0) emptyWorld)
     = [(proxyMessage ''com.x'' ''/svc'' ''com.x.Svc'' ''Missing'', UserCallback 0)] \<and>
   callbackCalls (call emptyInterface ''Missing'' [] (UserCallback 0) emptyWorld) = []"
  by (simp add: call_def emptyInterface_def emptyWorld_def)

text \<open>
  C8, amended. \<^verbatim>\<open>setProperty()\<close> with a property name absent from the property table
  never calls \<^verbatim>\<open>bus.invoke\<close> and, given a callback, completes it with a DBusError named
  \<^verbatim>\<open>org.freedesktop.DBus.Error.UnknownProperty\<close>. \<^verbatim>\<open>call()\<close> with a method name absent
  from the method table reports no error of its own: it passes the method call, without
  signature and body, to \<^verbatim>\<open>bus.invoke\<close> together with the caller's callback.
\<close>

theorem unknown_names:
  "(properties this propertyName = None \<longrightarrow>
      invokeCalls (setProperty this propertyName val callback w) = invokeCalls w \<and>
      (\<exists>e. callbackCalls (setProperty this propertyName val (Some cb) w)
             = callbackCalls w @ [(cb, Some e, None)]
           \<and> errorName e = ''org.freedesktop.DBus.Error.UnknownProperty'')) \<and>
   (methods this methodName = None \<longrightarrow>
      invokeCalls (call this methodName args callback' w)
        = invokeCalls w @ [(proxyMessage (service_name this) (parent_name this) (i_name this)
                              methodName, callback')] \<and>
      callbackCalls (call this methodName args callback' w) = callbackCalls w)"
  by (auto simp add: setProperty_def call_def split: option.splits)

theorem unknown_names_witness:
  "properties emptyInterface ''Volume'' = None \<and>
   invokeCalls (setProperty emptyInterface ''Volume'' (JNumber (Finite 75)) (Some 7) emptyWorld) = [] \<and>
   (\<exists>e. callbackCalls (setProperty emptyInterface ''Volume'' (JNumber (Finite 75)) (Some 7) emptyWorld)
          = [(7, Some e, None)]
        \<and> errorName e = ''org.freedesktop.DBus.Error.UnknownProperty'') \<and>
   methods emptyInterface ''Missing'' = None \<and>
   invokeCalls (call emptyInterface ''Missing'' [] (UserCallback 3) emptyWorld)
     = [(proxyMessage ''com.x'' ''/svc'' ''com.x.Svc'' ''Missing'', UserCallback 3)]"
  using unknown_names[of emptyInterface "''Volume''" "JNumber (Finite 75)" "Some 7" emptyWorld 7
      "''Missing''" "[]" "UserCallback 3"]
  by (simp add: emptyInterface_def emptyWorld_def)

text \<open>The \<^verbatim>\<open>mangle\<close> of the tests' mock bus: the three names joined by colons.\<close>

definition colonMangle :: "string \<Rightarrow> string \<Rightarrow> string \<Rightarrow> string" where
  "colonMangle p i m = p @ '':'' @ i @ '':'' @ m"

text \<open>
  When the bus has answered the first \<^verbatim>\<open>AddMatch\<close> before the second listener is
  registered, the signal has a listener by then: \<^verbatim>\<open>bus.addMatch\<close> is called once, removing
  one listener calls nothing, and removing the other calls \<^verbatim>\<open>bus.removeMatch\<close> once, each
  with the rule \<^verbatim>\<open>type='signal',path='<path>',interface='<iface>',member='<signal>'\<close>.
\<close>

lemma signal_match_sequenced:
  assumes "listeners w (mangle (parent_name this) (i_name this) sig) = []"
    and "matchCallbacks w = []"
  shows "\<exists>w1. matchReply None (on mangle this sig h1 w) = Inr w1 \<and>
     (let rule = ''type='' @ [CHR 0x27] @ ''signal'' @ [CHR 0x27] @ '',path='' @ [CHR 0x27]
                 @ parent_name this @ [CHR 0x27] @ '',interface='' @ [CHR 0x27] @ i_name this
                 @ [CHR 0x27] @ '',member='' @ [CHR 0x27] @ sig @ [CHR 0x27];
          w2 = on mangle this sig h2 w1;
          w3 = off mangle this sig h1 w2;
          w4 = off mangle this sig h2 w3
      in addMatchCalls (on mangle this sig h1 w) = addMatchCalls w @ [rule]
         \<and> addMatchCalls w2 = addMatchCalls w @ [rule]
         \<and> removeMatchCalls w2 = removeMatchCalls w
         \<and> addMatchCalls w3 = addMatchCalls w @ [rule]
         \<and> removeMatchCalls w3 = removeMatchCalls w
         \<and> addMatchCalls w4 = addMatchCalls w @ [rule]
         \<and> removeMatchCalls w4 = removeMatchCalls w @ [rule])"
proof -
  have rule: "''type='' @ [CHR 0x27] @ ''signal'' @ [CHR 0x27] @ '',path='' @ [CHR 0x27]
                 @ parent_name this @ [CHR 0x27] @ '',interface='' @ [CHR 0x27] @ i_name this
                 @ [CHR 0x27] @ '',member='' @ [CHR 0x27] @ sig @ [CHR 0x27]
      = getMatchRule (parent_name this) (i_name this) sig"
    by (simp add: getMatchRule_def)
  show ?thesis
    unfolding rule using assms
    by (auto simp add: on_def off_def matchReply_def Let_def removeListener_def
        split: option.splits)
qed

text \<open>
  C9 says that two listeners registered for the same signal cause exactly one
  \<^verbatim>\<open>AddMatch\<close> call and that removing the second of them causes one \<^verbatim>\<open>RemoveMatch\<close> call.
  \<^verbatim>\<open>on\<close> decides by the listeners of the signal, and the wrapped handler becomes a listener
  only when the bus answers \<^verbatim>\<open>AddMatch\<close>. Two registrations made one after the other,
  for \<^verbatim>\<open>StateChanged\<close> on \<^verbatim>\<open>/svc\<close> of \<^verbatim>\<open>com.x.Svc\<close>, both find no listener: the second one
  takes the branch of the first listener and calls \<^verbatim>\<open>bus.addMatch\<close> again with the same
  rule. After both answers and the removal of both listeners, \<^verbatim>\<open>bus.addMatch\<close> has been
  called twice and \<^verbatim>\<open>bus.removeMatch\<close> once.
\<close>

theorem second_listener_repeats_addMatch:
  "(let rule = ''type='' @ [CHR 0x27] @ ''signal'' @ [CHR 0x27] @ '',path='' @ [CHR 0x27]
               @ ''/svc'' @ [CHR 0x27] @ '',interface='' @ [CHR 0x27] @ ''com.x.Svc''
               @ [CHR 0x27] @ '',member='' @ [CHR 0x27] @ ''StateChanged'' @ [CHR 0x27];
        w1 = on colonMangle emptyInterface ''StateChanged'' 1 emptyWorld;
        w2 = on colonMangle emptyInterface ''StateChanged'' 2 w1
    in addMatchCalls w1 = [rule]
       \<and> listeners w1 ''/svc:com.x.Svc:StateChanged'' = []
       \<and> addMatchCalls w2 = [rule, rule]
       \<and> (\<exists>w3 w4. matchReply None w2 = Inr w3 \<and> matchReply None w3 = Inr w4
             \<and> length (listeners w4 ''/svc:com.x.Svc:StateChanged'') = 2
             \<and> addMatchCalls w4 = [rule, rule]
             \<and> removeMatchCalls (off colonMangle emptyInterface ''StateChanged'' 1 w4) = []
             \<and> addMatchCalls (off colonMangle emptyInterface ''StateChanged'' 2
                   (off colonMangle emptyInterface ''StateChanged'' 1 w4)) = [rule, rule]
             \<and> removeMatchCalls (off colonMangle emptyInterface ''StateChanged'' 2
                   (off colonMangle emptyInterface ''StateChanged'' 1 w4)) = [rule]))"
  by (simp add: on_def off_def matchReply_def Let_def removeListener_def getMatchRule_def
      emptyInterface_def emptyWorld_def colonMangle_def)


section \<open>64-bit integers: what is rejected and what is written\<close>

subsection \<open>Numerals and the values they denote\<close>

text \<open>
  The number a string of digits denotes in a radix, if every character is a digit of the
  radix and there is at least one.
\<close>

definition numeral_value :: "nat \<Rightarrow> string \<Rightarrow> nat option" where
  "numeral_value radix ds =
     (if ds \<noteq> [] \<and> length (digit_prefix radix ds) = length ds
      then Some (digits_value radix (digit_prefix radix ds)) else None)"

definition signed_numeral_value :: "nat \<Rightarrow> string \<Rightarrow> int option" where
  "signed_numeral_value radix s =
     (if take 1 s = ''-'' then map_option (\<lambda>n. - int n) (numeral_value radix (drop 1 s))
      else map_option int (numeral_value radix s))"

text \<open>
  The integer a decimal or hexadecimal string denotes: digits, with \<^verbatim>\<open>0x\<close> or \<^verbatim>\<open>0X\<close>
  before hexadecimal ones, and \<^verbatim>\<open>-\<close> first for a negative value.
\<close>

definition stringValue :: "string \<Rightarrow> int option" where
  "stringValue s =
     (if take 2 s = ''0x'' \<or> take 2 s = ''0X'' then map_option int (numeral_value 16 (drop 2 s))
      else if take 3 s = ''-0x'' \<or> take 3 s = ''-0X''
        then map_option (\<lambda>n. - int n) (numeral_value 16 (drop 3 s))
      else signed_numeral_value 10 s)"

lemma digit_value_digit_char: "d < 36 \<Longrightarrow> digit_value (digit_char d) = Some d"
proof -
  have "list_all (\<lambda>d. digit_value (digit_char d) = Some d) [0..<36]"
    by (simp add: upt_rec digit_char_def digit_value_def)
  then show "d < 36 \<Longrightarrow> digit_value (digit_char d) = Some d"
    by (simp add: list_all_iff)
qed

lemma upper_char_cases:
  "upper_char c = c \<or> (c \<in> set ''abcdefghijklmnopqrstuvwxyz'' \<and> upper_char c \<in> set ''ABCDEFGHIJKLMNOPQRSTUVWXYZ'')"
  by (simp add: upper_char_def)

lemma digit_value_upper_char: "digit_value (upper_char c) = digit_value c"
  by (simp add: upper_char_def digit_value_def)


lemma digit_prefix_upper: "digit_prefix radix (map upper_char s) = digit_prefix radix s"
  by (induct s) (auto simp add: digit_value_upper_char split: option.splits)

lemma numeral_value_upper: "numeral_value radix (toUpperCase s) = numeral_value radix s"
  by (simp add: numeral_value_def toUpperCase_def digit_prefix_upper)

lemma digits_value_snoc: "digits_value radix (ds @ [d]) = digits_value radix ds * radix + d"
  by (simp add: digits_value_def)

lemma digit_prefix_length: "length (digit_prefix radix s) \<le> length s"
  by (induct s) (auto split: option.splits)

lemma digit_prefix_all:
  "length (digit_prefix radix s) = length s \<longleftrightarrow>
   list_all (\<lambda>c. case digit_value c of None \<Rightarrow> False | Some d \<Rightarrow> d < radix) s"
proof (induct s)
  case Nil
  show ?case by simp
next
  case (Cons c s)
  show ?case
    using Cons digit_prefix_length[of radix s]
    by (auto split: option.splits)
qed

lemma digit_prefix_append:
  "length (digit_prefix radix xs) = length xs \<Longrightarrow>
   digit_prefix radix (xs @ ys) = digit_prefix radix xs @ digit_prefix radix ys"
proof (induct xs)
  case Nil
  show ?case by simp
next
  case (Cons c xs)
  show ?case
    using Cons digit_prefix_length[of radix xs]
    by (auto split: option.splits if_splits)
qed

lemma numeral_value_snoc:
  "numeral_value radix xs = Some m \<Longrightarrow> d < radix \<Longrightarrow> d < 36 \<Longrightarrow>
   numeral_value radix (xs @ [digit_char d]) = Some (m * radix + d)"
  by (auto simp add: numeral_value_def digit_prefix_append digit_value_digit_char
      digits_value_snoc split: if_splits)

lemma numeral_value_nat_digits:
  "2 \<le> radix \<Longrightarrow> radix \<le> 36 \<Longrightarrow> numeral_value radix (nat_digits radix n) = Some n"
proof (induct radix n rule: nat_digits.induct)
  case (1 radix n)
  show ?case
  proof (cases "n < radix")
    case True
    then show ?thesis
      using 1(2,3) by (simp add: numeral_value_def digit_value_digit_char digits_value_def)
  next
    case False
    have step: "nat_digits radix n = nat_digits radix (n div radix) @ [digit_char (n mod radix)]"
      using False 1(2) by (subst nat_digits.simps) simp
    have "numeral_value radix (nat_digits radix (n div radix)) = Some (n div radix)"
      using 1(1) False 1(2,3) by simp
    moreover have "n mod radix < radix" "n mod radix < 36"
      using 1(2,3) by (auto intro: less_le_trans[OF mod_less_divisor])
    ultimately have "numeral_value radix (nat_digits radix n) = Some (n div radix * radix + n mod radix)"
      unfolding step by (rule numeral_value_snoc)
    then show ?thesis by simp
  qed
qed

lemma numeral_value_no_minus: "numeral_value radix s = Some n \<Longrightarrow> take 1 s \<noteq> ''-''"
  by (cases s) (auto simp add: numeral_value_def digit_value_def split: if_splits)

declare nat_digits.simps [simp del]

lemma upper_minus: "upper_char CHR ''-'' = CHR ''-''"
  by (simp add: upper_char_def)

lemma toString_value:
  assumes "2 \<le> radix" "radix \<le> 36"
  shows "signed_numeral_value radix (toUpperCase (Long_toString l radix)) = Some (Long_value l)"
proof (cases "Long_value l < 0")
  case True
  have "numeral_value radix (toUpperCase (nat_digits radix (nat (- Long_value l))))
      = Some (nat (- Long_value l))"
    by (simp add: numeral_value_upper numeral_value_nat_digits assms)
  then show ?thesis
    using True
    by (simp add: signed_numeral_value_def Long_toString_def Let_def toUpperCase_def upper_minus)
next
  case False
  have v: "numeral_value radix (toUpperCase (nat_digits radix (nat (Long_value l))))
      = Some (nat (Long_value l))"
    by (simp add: numeral_value_upper numeral_value_nat_digits assms)
  then have "take 1 (toUpperCase (nat_digits radix (nat (Long_value l)))) \<noteq> ''-''"
    by (rule numeral_value_no_minus)
  then show ?thesis
    using False v
    by (simp add: signed_numeral_value_def Long_toString_def Let_def)
qed


lemma digit_not_space: "digit_value c = Some d \<Longrightarrow> \<not> is_space c"
  by (auto simp add: digit_value_def is_space_def Let_def split: if_splits)

lemma numeral_value_chars:
  "numeral_value radix ds = Some n \<Longrightarrow>
   ds \<noteq> [] \<and> list_all (\<lambda>c. case digit_value c of None \<Rightarrow> False | Some d \<Rightarrow> d < radix) ds"
  by (auto simp add: numeral_value_def digit_prefix_all split: if_splits)

lemma numeral_value_ends:
  assumes "numeral_value radix ds = Some n"
  shows "\<not> is_space (hd ds)" "\<not> is_space (last ds)"
proof -
  have ne: "ds \<noteq> []"
    and all: "list_all (\<lambda>c. case digit_value c of None \<Rightarrow> False | Some d \<Rightarrow> d < radix) ds"
    using numeral_value_chars[OF assms] by auto
  have "\<And>c. c \<in> set ds \<Longrightarrow> \<not> is_space c"
    using all digit_not_space by (auto simp add: list_all_iff split: option.splits)
  then show "\<not> is_space (hd ds)" "\<not> is_space (last ds)"
    using ne by auto
qed

lemma trim_id: "s \<noteq> [] \<Longrightarrow> \<not> is_space (hd s) \<Longrightarrow> \<not> is_space (last s) \<Longrightarrow> trim s = s"
proof -
  assume s: "s \<noteq> []" and h: "\<not> is_space (hd s)" and l: "\<not> is_space (last s)"
  have a: "dropWhile is_space s = s" using s h by (cases s) auto
  have hl: "hd (rev s) = last s" using s by (simp add: hd_rev)
  obtain x xs where r: "rev s = x # xs" using s by (cases "rev s") auto
  have "x = last s" using hl r by simp
  then have b: "dropWhile is_space (rev s) = rev s" using l unfolding r by simp
  show ?thesis by (simp add: trim_def a b)
qed

lemma upper_char_zero: "upper_char c = CHR ''0'' \<longleftrightarrow> c = CHR ''0''"
  by (auto simp add: upper_char_def split: if_splits)

lemma upper_char_X: "upper_char c = CHR ''X'' \<longleftrightarrow> c = CHR ''x'' \<or> c = CHR ''X''"
  by (auto simp add: upper_char_def split: if_splits)

lemma upper_char_minus: "upper_char c = CHR ''-'' \<longleftrightarrow> c = CHR ''-''"
  by (auto simp add: upper_char_def split: if_splits)

lemma take2_upper:
  "take 2 (toUpperCase s) = ''0X'' \<longleftrightarrow> take 2 s = ''0x'' \<or> take 2 s = ''0X''"
proof (cases s)
  case Nil
  then show ?thesis by (simp add: toUpperCase_def)
next
  case (Cons a t)
  then show ?thesis
    by (cases t) (auto simp add: toUpperCase_def upper_char_zero upper_char_X)
qed

lemma take3_upper:
  "take 3 (toUpperCase s) = ''-0X'' \<longleftrightarrow> take 3 s = ''-0x'' \<or> take 3 s = ''-0X''"
proof (cases s)
  case Nil
  then show ?thesis by (simp add: toUpperCase_def)
next
  case (Cons a t)
  show ?thesis
  proof (cases t)
    case Nil
    then show ?thesis using Cons by (simp add: toUpperCase_def)
  next
    case (Cons b u)
    then show ?thesis
      using \<open>s = a # t\<close>
      by (cases u) (auto simp add: toUpperCase_def upper_char_zero upper_char_X upper_char_minus)
  qed
qed

lemma take1_upper: "take 1 (toUpperCase s) = ''-'' \<longleftrightarrow> take 1 s = ''-''"
  by (cases s) (auto simp add: toUpperCase_def upper_char_minus)

lemma drop_upper: "drop k (toUpperCase s) = toUpperCase (drop k s)"
  by (simp add: toUpperCase_def drop_map)

lemma numeral_value_zero:
  "1 \<le> radix \<Longrightarrow> t \<noteq> [] \<Longrightarrow> numeral_value radix (CHR ''0'' # t) = numeral_value radix t"
  by (auto simp add: numeral_value_def digit_value_def digits_value_def)

lemma dropLeadingZeroes_value:
  "1 \<le> radix \<Longrightarrow> numeral_value radix (dropLeadingZeroes s) = numeral_value radix s"
proof (induct s rule: dropLeadingZeroes.induct)
  case (1 z c rest)
  show ?case
  proof (cases "z = CHR ''0'' \<and> is_decimal_digit c")
    case True
    show ?thesis
    proof (cases "c = CHR ''0''")
      case c: True
      have "numeral_value radix (dropLeadingZeroes (c # rest)) = numeral_value radix (c # rest)"
        using 1 True c by simp
      then show ?thesis
        using True c 1(2) by (simp add: numeral_value_zero)
    next
      case False
      then show ?thesis using True 1(2) by (simp add: numeral_value_zero)
    qed
  next
    case False
    then show ?thesis by auto
  qed
qed simp_all

lemma dropLeadingZeroes_minus: "dropLeadingZeroes (CHR ''-'' # t) = CHR ''-'' # t"
  by (cases t) simp_all


lemma space_chars: "\<not> is_space CHR ''0''" "\<not> is_space CHR ''-''"
  by (simp_all add: is_space_def)

lemma radixAndDigits_value:
  assumes sv: "stringValue s = Some v"
  shows "\<exists>radix strVal. radixAndDigits s = (radix, strVal) \<and> 2 \<le> radix \<and> radix \<le> 36
           \<and> signed_numeral_value radix strVal = Some v"
proof -
  consider
      (hex) "take 2 s = ''0x'' \<or> take 2 s = ''0X''"
    | (neghex) "\<not> (take 2 s = ''0x'' \<or> take 2 s = ''0X'')" "take 3 s = ''-0x'' \<or> take 3 s = ''-0X''"
    | (neg) "\<not> (take 2 s = ''0x'' \<or> take 2 s = ''0X'')" "\<not> (take 3 s = ''-0x'' \<or> take 3 s = ''-0X'')"
        "take 1 s = ''-''"
    | (pos) "\<not> (take 2 s = ''0x'' \<or> take 2 s = ''0X'')" "\<not> (take 3 s = ''-0x'' \<or> take 3 s = ''-0X'')"
        "take 1 s \<noteq> ''-''"
    by blast
  then show ?thesis
  proof cases
    case hex
    then obtain n where n: "numeral_value 16 (drop 2 s) = Some n" and v: "v = int n"
      using sv by (auto simp add: stringValue_def)
    have t: "drop 2 s \<noteq> []" using numeral_value_chars[OF n] by simp
    have "s = take 2 s @ drop 2 s" by simp
    then have sp: "s = ''0x'' @ drop 2 s \<or> s = ''0X'' @ drop 2 s"
      using hex by metis
    have "hd s = CHR ''0''" "last s = last (drop 2 s)" "s \<noteq> []"
      using sp t by (metis append_Cons list.sel(1), metis last_appendR, auto)
    then have tr: "trim s = s"
      using numeral_value_ends(2)[OF n] space_chars by (intro trim_id) auto
    have up: "take 2 (toUpperCase s) = ''0X''" using hex by (simp add: take2_upper)
    have val: "numeral_value 16 (dropLeadingZeroes (toUpperCase (drop 2 s))) = Some n"
      by (simp add: dropLeadingZeroes_value numeral_value_upper n)
    have "radixAndDigits s = (16, dropLeadingZeroes (toUpperCase (drop 2 s)))"
      by (simp add: radixAndDigits_def tr up Let_def drop_upper)
    moreover have "signed_numeral_value 16 (dropLeadingZeroes (toUpperCase (drop 2 s))) = Some v"
      using val numeral_value_no_minus[OF val] by (simp add: signed_numeral_value_def v)
    ultimately show ?thesis by simp
  next
    case neghex
    then obtain n where n: "numeral_value 16 (drop 3 s) = Some n" and v: "v = - int n"
      using sv by (auto simp add: stringValue_def)
    have t: "drop 3 s \<noteq> []" using numeral_value_chars[OF n] by simp
    have "s = take 3 s @ drop 3 s" by simp
    then have sp: "s = ''-0x'' @ drop 3 s \<or> s = ''-0X'' @ drop 3 s"
      using neghex(2) by metis
    have "hd s = CHR ''-''" "last s = last (drop 3 s)" "s \<noteq> []"
      using sp t by (metis append_Cons list.sel(1), metis last_appendR, auto)
    then have tr: "trim s = s"
      using numeral_value_ends(2)[OF n] space_chars by (intro trim_id) auto
    have up2: "take 2 (toUpperCase s) \<noteq> ''0X''" using neghex(1) by (simp add: take2_upper)
    have up3: "take 3 (toUpperCase s) = ''-0X''" using neghex(2) by (simp add: take3_upper)
    have val: "numeral_value 16 (toUpperCase (drop 3 s)) = Some n"
      by (simp add: numeral_value_upper n)
    have "radixAndDigits s = (16, CHR ''-'' # toUpperCase (drop 3 s))"
      by (simp add: radixAndDigits_def tr up2 up3 Let_def drop_upper dropLeadingZeroes_minus)
    moreover have "signed_numeral_value 16 (CHR ''-'' # toUpperCase (drop 3 s)) = Some v"
      using val by (simp add: signed_numeral_value_def v)
    ultimately show ?thesis by simp
  next
    case neg
    then obtain n where n: "numeral_value 10 (drop 1 s) = Some n" and v: "v = - int n"
      using sv by (auto simp add: stringValue_def signed_numeral_value_def)
    have t: "drop 1 s \<noteq> []" using numeral_value_chars[OF n] by simp
    have "s = take 1 s @ drop 1 s" by simp
    then have sp: "s = ''-'' @ drop 1 s"
      using neg(3) by metis
    have s: "s = CHR ''-'' # drop 1 s" using sp by simp
    have "hd s = CHR ''-''" "last s = last (drop 1 s)" "s \<noteq> []"
      using sp t by (metis append_Cons list.sel(1), metis last_appendR, auto)
    then have tr: "trim s = s"
      using numeral_value_ends(2)[OF n] space_chars by (intro trim_id) auto
    have up2: "take 2 (toUpperCase s) \<noteq> ''0X''" using neg(1) by (simp add: take2_upper)
    have up3: "take 3 (toUpperCase s) \<noteq> ''-0X''" using neg(2) by (simp add: take3_upper)
    have "toUpperCase (CHR ''-'' # drop 1 s) = CHR ''-'' # toUpperCase (drop 1 s)"
      by (simp add: toUpperCase_def upper_minus)
    then have us: "toUpperCase s = CHR ''-'' # toUpperCase (drop 1 s)"
      using s by metis
    have val: "numeral_value 10 (toUpperCase (drop 1 s)) = Some n"
      using n by (simp add: numeral_value_upper)
    have "radixAndDigits s = (10, dropLeadingZeroes (toUpperCase s))"
      by (simp add: radixAndDigits_def tr up2 up3 Let_def)
    then have "radixAndDigits s = (10, CHR ''-'' # toUpperCase (drop 1 s))"
      by (simp only: us dropLeadingZeroes_minus)
    moreover have "signed_numeral_value 10 (CHR ''-'' # toUpperCase (drop 1 s)) = Some v"
      using val by (simp add: signed_numeral_value_def v)
    ultimately show ?thesis by simp
  next
    case pos
    then obtain n where n: "numeral_value 10 s = Some n" and v: "v = int n"
      using sv by (auto simp add: stringValue_def signed_numeral_value_def)
    have ne: "s \<noteq> []" using numeral_value_chars[OF n] by simp
    have tr: "trim s = s"
      using numeral_value_ends[OF n] ne by (intro trim_id) auto
    have up2: "take 2 (toUpperCase s) \<noteq> ''0X''" using pos(1) by (simp add: take2_upper)
    have up3: "take 3 (toUpperCase s) \<noteq> ''-0X''" using pos(2) by (simp add: take3_upper)
    have val: "numeral_value 10 (dropLeadingZeroes (toUpperCase s)) = Some n"
      by (simp add: dropLeadingZeroes_value numeral_value_upper n)
    have "radixAndDigits s = (10, dropLeadingZeroes (toUpperCase s))"
      by (simp add: radixAndDigits_def tr up2 up3 Let_def)
    moreover have "signed_numeral_value 10 (dropLeadingZeroes (toUpperCase s)) = Some v"
      using val numeral_value_no_minus[OF val] by (simp add: signed_numeral_value_def v)
    ultimately show ?thesis by simp
  qed
qed

lemma Long_bits_range: "0 \<le> Long_bits l \<and> Long_bits l < 2 ^ 64"
proof -
  have a: "0 \<le> high l mod 2 ^ 32" "high l mod 2 ^ 32 < 2 ^ 32"
    and b: "0 \<le> low l mod 2 ^ 32" "low l mod 2 ^ 32 < 2 ^ 32"
    by simp_all
  have "(high l mod 2 ^ 32) * 2 ^ 32 \<le> (2 ^ 32 - 1) * 2 ^ 32"
    using a by (intro mult_right_mono) auto
  then show ?thesis
    using a b unfolding Long_bits_def by auto
qed

lemma Long_value_range:
  "(unsigned l \<longrightarrow> 0 \<le> Long_value l \<and> Long_value l < 2 ^ 64) \<and>
   (\<not> unsigned l \<longrightarrow> - (2 ^ 63) \<le> Long_value l \<and> Long_value l < 2 ^ 63)"
  using Long_bits_range[of l] by (auto simp add: Long_value_def)


lemma checkLong_string:
  assumes "checkLong (JString s) sg = Inr l"
  shows "unsigned l = (\<not> sg)"
    and "toUpperCase (Long_toString l (fst (radixAndDigits s))) = snd (radixAndDigits s)"
  using assms
  by (auto simp add: checkLong_def makeLong_def split: sum.splits prod.splits if_splits)

lemma string_out_of_range:
  assumes sv: "stringValue s = Some v"
    and out: "if sg then v < - (2 ^ 63) \<or> 2 ^ 63 \<le> v else v < 0 \<or> 2 ^ 64 \<le> v"
  shows "isl (checkLong (JString s) sg)"
proof (rule ccontr)
  assume "\<not> isl (checkLong (JString s) sg)"
  then obtain l where l: "checkLong (JString s) sg = Inr l"
    by (cases "checkLong (JString s) sg") auto
  obtain radix strVal where r: "radixAndDigits s = (radix, strVal)" "2 \<le> radix" "radix \<le> 36"
    and val: "signed_numeral_value radix strVal = Some v"
    using radixAndDigits_value[OF sv] by blast
  have "toUpperCase (Long_toString l radix) = strVal"
    using checkLong_string(2)[OF l] r(1) by simp
  then have "signed_numeral_value radix strVal = Some (Long_value l)"
    using toString_value[OF r(2,3), of l] by simp
  then have v: "v = Long_value l" using val by simp
  show False
    using Long_value_range[of l] checkLong_string(1)[OF l] out
    unfolding v by (auto split: if_splits)
qed

lemma number_out_of_window:
  assumes "if sg then number_gt n 9007199254740991 \<or> number_lt n (- 9007199254740991)
           else number_gt n 9007199254740991 \<or> number_lt n 0"
  shows "\<exists>e. checkLong (JNumber n) sg = Inl (Only53Bit e)"
  using assms
  by (cases n)
     (auto simp add: checkLong_def makeLong_def checkIntegerRange_def checkInteger_def
        checkRange_def split: if_splits)

lemma longlike_flag:
  "checkLong (JLongLike lo hi True) True = Inl UnsignedIntoSigned"
  "checkLong (JLongLike lo hi False) False = Inl SignedIntoUnsigned"
  "unsigned l \<Longrightarrow> checkLong (JLong l) True = Inl UnsignedIntoSigned"
  "\<not> unsigned l \<Longrightarrow> checkLong (JLong l) False = Inl SignedIntoUnsigned"
  by (simp_all add: checkLong_def makeLong_def fromBits_def)

lemmas long_eval = checkLong_def makeLong_def radixAndDigits_def toUpperCase_def upper_char_def
  trim_def is_space_def is_decimal_digit_def parseInt_def digit_value_def digits_value_def
  Long_of_bits_def fromBits_def Long_toString_def Long_value_def Long_bits_def int32_def
  digit_char_def checkIntegerRange_def checkInteger_def checkRange_def
  Long_gt_def Long_lt_def Long_compare_def Long_eq_def isNegative_def Long_MAX_VALUE_def
  Long_MIN_VALUE_def Long_MAX_UNSIGNED_VALUE_def Long_ZERO_def Long_UZERO_def Long_neg_def
  trunc_def toInt32_def nat_digits.simps

lemma marshall_long:
  assumes inv: "Put_inv ps" and sg: "sg = ''x'' \<or> sg = ''t''"
    and ok: "checkLong data (sg = ''x'') = Inr l"
  shows "\<exists>ps'. MakeSimpleMarshaller enc sg ps data = Inr ps'
           \<and> buffer ps' = buffer ps @ replicate ((8 - p_offset ps mod 8) mod 8) 0
                 @ littleEndian32 (low l) @ littleEndian32 (high l)"
proof -
  let ?ps1 = "align ps 8"
  let ?ps' = "(word32le (word32le ?ps1 (low l)) (high l))\<lparr>p_offset := p_offset ?ps1 + 8\<rparr>"
  have res: "MakeSimpleMarshaller enc sg ps data = Inr ?ps'"
    using sg ok by (auto simp add: MakeSimpleMarshaller_def Let_def)
  have i1: "Put_inv ?ps1" using inv by (rule Put_inv_align)
  have i2: "Put_inv (word32le ?ps1 (low l))" using i1 by (rule Put_inv_word32le)
  have "buffer ?ps' = buffer (word32le (word32le ?ps1 (low l)) (high l))"
    by (rule buffer_offset)
  also have "\<dots> = buffer (word32le ?ps1 (low l)) @ littleEndian32 (high l)"
    using i2 by (rule word32le_bytes)
  also have "\<dots> = (buffer ?ps1 @ littleEndian32 (low l)) @ littleEndian32 (high l)"
    using i1 by (simp add: word32le_bytes)
  also have "buffer ?ps1 = buffer ps @ replicate ((8 - p_offset ps mod 8) mod 8) 0"
    using inv by (simp add: buffer_align)
  finally show ?thesis using res by simp
qed

lemma marshall_long_rejected:
  "sg = ''x'' \<or> sg = ''t'' \<Longrightarrow> checkLong data (sg = ''x'') = Inl e \<Longrightarrow>
   MakeSimpleMarshaller enc sg ps data = Inl e"
  by (auto simp add: MakeSimpleMarshaller_def)

subsection \<open>What an accepted value is written as\<close>

lemma Long_of_bits_mod:
  "low (Long_of_bits w u) mod 4294967296 = w mod 4294967296"
  "high (Long_of_bits w u) mod 4294967296 = (w div 4294967296) mod 4294967296"
  "unsigned (Long_of_bits w u) = u"
  by (simp_all add: Long_of_bits_def fromBits_def int32_mod)

lemma div32_neg:
  fixes d :: int
  assumes "- 9223372036854775808 \<le> d" "d < 0"
  shows "- 2147483648 \<le> d div 4294967296" "d div 4294967296 < 0"
proof -
  have "(- 9223372036854775808) div 4294967296 \<le> d div (4294967296 :: int)"
    using assms(1) by (intro zdiv_mono1) auto
  then show "- 2147483648 \<le> d div 4294967296" by simp
  show "d div 4294967296 < 0" using assms(2) by (simp add: div_neg_pos_less0)
qed

lemma div32_pos:
  fixes d :: int
  assumes "0 \<le> d" "d < 9223372036854775808"
  shows "0 \<le> d div 4294967296" "d div 4294967296 < 2147483648"
proof -
  show "0 \<le> d div 4294967296" using assms(1) by (simp add: pos_imp_zdiv_nonneg_iff)
  have "d div 4294967296 \<le> 9223372036854775807 div (4294967296 :: int)"
    using assms(2) by (intro zdiv_mono1) auto
  then show "d div 4294967296 < 2147483648" by simp
qed

lemma mod32_cases:
  fixes x :: int
  assumes "- 2147483648 \<le> x" "x < 2147483648"
  shows "x mod 4294967296 = (if x < 0 then x + 4294967296 else x)"
proof (cases "x < 0")
  case True
  have "(x + 4294967296) mod 4294967296 = x + 4294967296"
    using assms True by (intro mod_pos_pos_trivial) auto
  then show ?thesis using True by simp
next
  case False
  then show ?thesis using assms by simp
qed

lemma signed_in_range:
  assumes lo: "- 2147483648 \<le> low l" "low l < 2147483648"
    and hi: "- 2147483648 \<le> high l" "high l < 2147483648"
    and u: "\<not> unsigned l"
  shows "\<not> Long_gt l Long_MAX_VALUE" "\<not> Long_lt l Long_MIN_VALUE"
proof -
  have mx: "Long_MAX_VALUE = \<lparr>low = - 1, high = 2147483647, unsigned = False\<rparr>"
    by (simp add: Long_MAX_VALUE_def fromBits_def int32_def)
  have mn: "Long_MIN_VALUE = \<lparr>low = 0, high = - 2147483648, unsigned = False\<rparr>"
    by (simp add: Long_MIN_VALUE_def fromBits_def int32_def)
  have lm: "low l mod 4294967296 = (if low l < 0 then low l + 4294967296 else low l)"
    using lo by (rule mod32_cases)
  have hm: "high l mod 4294967296 = (if high l < 0 then high l + 4294967296 else high l)"
    using hi by (rule mod32_cases)
  show "\<not> Long_gt l Long_MAX_VALUE"
  proof (cases "high l < 0")
    case True
    then show ?thesis
      using u by (simp add: Long_gt_def Long_compare_def Long_eq_def isNegative_def mx)
  next
    case False
    show ?thesis
    proof (cases "high l = 2147483647 \<and> low l = - 1")
      case True
      then show ?thesis using u by (simp add: Long_gt_def Long_compare_def Long_eq_def mx)
    next
      case ne: False
      define d where "d = Long_bits l - Long_bits Long_MAX_VALUE"
      have d: "d = high l * 4294967296 + low l mod 4294967296 - 9223372036854775807"
        using False hm by (simp add: d_def Long_bits_def mx)
      have "d < 0" "- 9223372036854775808 \<le> d"
        using False ne lo hi unfolding d lm by (auto split: if_splits)
      then have "- 2147483648 \<le> d div 4294967296" "d div 4294967296 < 0"
        using div32_neg by auto
      then have "int32 (d div 4294967296) < 0" by (simp add: int32_id)
      then have "isNegative (Long_of_bits d False)"
        by (simp add: isNegative_def Long_of_bits_def fromBits_def)
      then show ?thesis
        using u False ne
        by (simp add: Long_gt_def Long_compare_def Long_eq_def isNegative_def d_def[symmetric]
            Long_of_bits_mod(3))
           (simp add: mx)
    qed
  qed
  show "\<not> Long_lt l Long_MIN_VALUE"
  proof (cases "high l < 0")
    case False
    then show ?thesis
      using u by (simp add: Long_lt_def Long_compare_def Long_eq_def isNegative_def mn)
  next
    case True
    show ?thesis
    proof (cases "high l = - 2147483648 \<and> low l = 0")
      case True
      then show ?thesis using u by (simp add: Long_lt_def Long_compare_def Long_eq_def mn)
    next
      case ne: False
      define d where "d = Long_bits l - Long_bits Long_MIN_VALUE"
      have d: "d = (high l + 4294967296) * 4294967296 + low l mod 4294967296 - 9223372036854775808"
        using True hm by (simp add: d_def Long_bits_def mn)
      have "0 \<le> d" "d < 9223372036854775808"
        using True ne lo hi unfolding d lm by (auto split: if_splits)
      then have "0 \<le> d div 4294967296" "d div 4294967296 < 2147483648"
        using div32_pos by auto
      then have "\<not> int32 (d div 4294967296) < 0" by (simp add: int32_id)
      then have "\<not> isNegative (Long_of_bits d False)"
        by (simp add: isNegative_def Long_of_bits_def fromBits_def)
      then show ?thesis
        using u True ne
        by (simp add: Long_lt_def Long_compare_def Long_eq_def isNegative_def d_def[symmetric]
            Long_of_bits_mod(3))
           (simp add: mn)
    qed
  qed
qed


lemma unsigned_in_range:
  assumes lo: "- 2147483648 \<le> low l" "low l < 2147483648"
    and hi: "- 2147483648 \<le> high l" "high l < 2147483648"
    and u: "unsigned l"
  shows "\<not> Long_gt l Long_MAX_UNSIGNED_VALUE" "\<not> Long_lt l Long_ZERO"
proof -
  have mx: "Long_MAX_UNSIGNED_VALUE = \<lparr>low = - 1, high = - 1, unsigned = True\<rparr>"
    by (simp add: Long_MAX_UNSIGNED_VALUE_def fromBits_def int32_def)
  have z: "Long_ZERO = \<lparr>low = 0, high = 0, unsigned = False\<rparr>"
    by (simp add: Long_ZERO_def fromBits_def int32_def)
  have lm: "low l mod 4294967296 = (if low l < 0 then low l + 4294967296 else low l)"
    using lo by (rule mod32_cases)
  have hm: "high l mod 4294967296 = (if high l < 0 then high l + 4294967296 else high l)"
    using hi by (rule mod32_cases)
  show "\<not> Long_gt l Long_MAX_UNSIGNED_VALUE"
    using u lo hi
    by (auto simp add: Long_gt_def Long_compare_def Long_eq_def isNegative_def mx lm hm
        split: if_splits)
  show "\<not> Long_lt l Long_ZERO"
    using u lo hi
    by (auto simp add: Long_lt_def Long_compare_def Long_eq_def isNegative_def z lm hm
        split: if_splits)
qed

lemma checkLong_accepts:
  assumes lo: "- 2147483648 \<le> low l" "low l < 2147483648"
    and hi: "- 2147483648 \<le> high l" "high l < 2147483648"
    and u: "unsigned l = (\<not> sg)"
    and mk: "(case data of JLong l' \<Rightarrow> Inr l' | _ \<Rightarrow> makeLong data sg) = Inr l"
  shows "checkLong data sg = Inr l"
proof (cases sg)
  case True
  then have "\<not> unsigned l" using u by simp
  then show ?thesis
    unfolding checkLong_def mk using signed_in_range[OF lo hi] True by simp
next
  case False
  then have "unsigned l" using u by simp
  then show ?thesis
    unfolding checkLong_def mk using unsigned_in_range[OF lo hi] False by simp
qed

lemma checkLong_instance:
  assumes "- 2147483648 \<le> low l" "low l < 2147483648"
    and "- 2147483648 \<le> high l" "high l < 2147483648"
    and "unsigned l = (\<not> sg)"
  shows "checkLong (JLong l) sg = Inr l"
  using assms by (intro checkLong_accepts) auto

lemma checkLong_longlike:
  "checkLong (JLongLike (Finite (of_int a)) (Finite (of_int b)) (\<not> sg)) sg
     = Inr \<lparr>low = int32 a, high = int32 b, unsigned = \<not> sg\<rparr>"
proof -
  have t: "\<And>k. trunc (of_int k) = k" by (simp add: trunc_def)
  have i: "\<And>x. int32 (int32 x) = int32 x"
    using int32_range by (intro int32_id) auto
  show ?thesis
    using int32_range[of a] int32_range[of b]
    by (intro checkLong_accepts) (auto simp add: makeLong_def fromBits_def toInt32_def t i)
qed

lemma checkLong_number:
  assumes "if sg then - 9007199254740991 \<le> k else 0 \<le> k" "k \<le> 9007199254740991"
  shows "checkLong (JNumber (Finite (of_int k))) sg = Inr (Long_of_bits k (\<not> sg))"
proof -
  have t: "trunc (of_int k) = k" by (simp add: trunc_def)
  have r: "integerIn (if sg then - 0x1fffffffffffff else 0) 0x1fffffffffffff (Finite (of_int k))"
    using assms by (auto simp add: integerIn_def split: if_splits)
  have c: "checkIntegerRange (if sg then - 0x1fffffffffffff else 0) 0x1fffffffffffff
             (JNumber (Finite (of_int k))) = Inr (Finite (of_int k))"
    using r by (rule checkIntegerRange_ok)
  have f: "fromNumber (Finite (of_int k)) (\<not> sg) = Long_of_bits k (\<not> sg)"
    using assms by (auto simp add: t split: if_splits)
  have mk: "makeLong (JNumber (Finite (of_int k))) sg = Inr (Long_of_bits k (\<not> sg))"
    using c f by (simp add: makeLong_def)
  show ?thesis
    using int32_range[of k] int32_range[of "k div 2 ^ 32"] mk
    by (intro checkLong_accepts) (auto simp add: Long_of_bits_def fromBits_def)
qed

lemma stringValue_ends:
  assumes sv: "stringValue s = Some v"
  shows "s \<noteq> [] \<and> \<not> is_space (hd s) \<and> \<not> is_space (last s)"
proof -
  consider
      (hex) "take 2 s = ''0x'' \<or> take 2 s = ''0X''"
    | (neghex) "\<not> (take 2 s = ''0x'' \<or> take 2 s = ''0X'')" "take 3 s = ''-0x'' \<or> take 3 s = ''-0X''"
    | (neg) "\<not> (take 2 s = ''0x'' \<or> take 2 s = ''0X'')" "\<not> (take 3 s = ''-0x'' \<or> take 3 s = ''-0X'')"
        "take 1 s = ''-''"
    | (pos) "\<not> (take 2 s = ''0x'' \<or> take 2 s = ''0X'')" "\<not> (take 3 s = ''-0x'' \<or> take 3 s = ''-0X'')"
        "take 1 s \<noteq> ''-''"
    by blast
  then show ?thesis
  proof cases
    case hex
    then obtain n where n: "numeral_value 16 (drop 2 s) = Some n"
      using sv by (auto simp add: stringValue_def)
    have t: "drop 2 s \<noteq> []" using numeral_value_chars[OF n] by simp
    have "s = take 2 s @ drop 2 s" by simp
    then have sp: "s = ''0x'' @ drop 2 s \<or> s = ''0X'' @ drop 2 s"
      using hex by metis
    have "hd s = CHR ''0''" "last s = last (drop 2 s)" "s \<noteq> []"
      using sp t by (metis append_Cons list.sel(1), metis last_appendR, auto)
    then show ?thesis
      using numeral_value_ends(2)[OF n] space_chars by auto
  next
    case neghex
    then obtain n where n: "numeral_value 16 (drop 3 s) = Some n"
      using sv by (auto simp add: stringValue_def)
    have t: "drop 3 s \<noteq> []" using numeral_value_chars[OF n] by simp
    have "s = take 3 s @ drop 3 s" by simp
    then have sp: "s = ''-0x'' @ drop 3 s \<or> s = ''-0X'' @ drop 3 s"
      using neghex(2) by metis
    have "hd s = CHR ''-''" "last s = last (drop 3 s)" "s \<noteq> []"
      using sp t by (metis append_Cons list.sel(1), metis last_appendR, auto)
    then show ?thesis
      using numeral_value_ends(2)[OF n] space_chars by auto
  next
    case neg
    then obtain n where n: "numeral_value 10 (drop 1 s) = Some n"
      using sv by (auto simp add: stringValue_def signed_numeral_value_def)
    have t: "drop 1 s \<noteq> []" using numeral_value_chars[OF n] by simp
    have "s = take 1 s @ drop 1 s" by simp
    then have sp: "s = ''-'' @ drop 1 s"
      using neg(3) by metis
    have "hd s = CHR ''-''" "last s = last (drop 1 s)" "s \<noteq> []"
      using sp t by (metis append_Cons list.sel(1), metis last_appendR, auto)
    then show ?thesis
      using numeral_value_ends(2)[OF n] space_chars by auto
  next
    case pos
    then obtain n where n: "numeral_value 10 s = Some n"
      using sv by (auto simp add: stringValue_def signed_numeral_value_def)
    have ne: "s \<noteq> []" using numeral_value_chars[OF n] by simp
    then show ?thesis using numeral_value_ends[OF n] by simp
  qed
qed

lemma dropWhile_all: "list_all P xs \<Longrightarrow> dropWhile P (xs @ ys) = dropWhile P ys"
  by (induction xs) auto

lemma trim_padded:
  assumes pre: "list_all is_space pre" and post: "list_all is_space post"
    and ne: "core \<noteq> []" and h: "\<not> is_space (hd core)" and l: "\<not> is_space (last core)"
  shows "trim (pre @ core @ post) = core"
proof -
  have a: "dropWhile is_space (pre @ core @ post) = core @ post"
    using pre ne h by (cases core) (auto simp add: dropWhile_all)
  have rp: "list_all is_space (rev post)" using post by (simp add: list_all_iff)
  obtain x xs where r: "rev core = x # xs" using ne by (cases "rev core") auto
  have "hd (rev core) = last core" using ne by (simp add: hd_rev)
  then have x: "x = last core" using r by simp
  have "dropWhile is_space (rev (core @ post)) = dropWhile is_space (rev core)"
    using rp by (simp add: dropWhile_all)
  also have "\<dots> = rev core" using l x unfolding r by simp
  finally show ?thesis by (simp add: trim_def a)
qed

lemma padding_spaces:
  "set p \<subseteq> {CHR '' '', CHR 0x09, CHR 0x0A, CHR 0x0D} \<Longrightarrow> list_all is_space p"
  by (auto simp add: list_all_iff is_space_def)

lemma checkLong_padded:
  assumes sv: "stringValue core = Some v"
    and pre: "set pre \<subseteq> {CHR '' '', CHR 0x09, CHR 0x0A, CHR 0x0D}"
    and post: "set post \<subseteq> {CHR '' '', CHR 0x09, CHR 0x0A, CHR 0x0D}"
  shows "checkLong (JString (pre @ core @ post)) sg = checkLong (JString core) sg"
proof -
  have e: "core \<noteq> []" "\<not> is_space (hd core)" "\<not> is_space (last core)"
    using stringValue_ends[OF sv] by auto
  have "trim (pre @ core @ post) = core"
    using padding_spaces[OF pre] padding_spaces[OF post] e by (rule trim_padded)
  moreover have "trim core = core" using e by (rule trim_id)
  ultimately have "radixAndDigits (pre @ core @ post) = radixAndDigits core"
    by (simp add: radixAndDigits_def)
  then show ?thesis by (simp add: checkLong_def makeLong_def)
qed

lemma accepted_string_value:
  assumes sv: "stringValue s = Some v" and l: "checkLong (JString s) sg = Inr l"
  shows "Long_value l = v"
proof -
  obtain radix strVal where r: "radixAndDigits s = (radix, strVal)" "2 \<le> radix" "radix \<le> 36"
    and val: "signed_numeral_value radix strVal = Some v"
    using radixAndDigits_value[OF sv] by blast
  have "toUpperCase (Long_toString l radix) = strVal"
    using checkLong_string(2)[OF l] r(1) by simp
  then have "signed_numeral_value radix strVal = Some (Long_value l)"
    using toString_value[OF r(2,3), of l] by simp
  then show ?thesis using val by simp
qed

lemma Long_value_halves:
  assumes "Long_value l = v"
  shows "low l mod 4294967296 = v mod 4294967296"
    and "high l mod 4294967296 = (v div 4294967296) mod 4294967296"
proof -
  define lo where "lo = low l mod 4294967296"
  define hi where "hi = high l mod 4294967296"
  have b: "Long_bits l = hi * 4294967296 + lo"
    by (simp add: Long_bits_def lo_def hi_def)
  have p: "(2 :: int) ^ 64 = 18446744073709551616" by simp
  have "v = Long_bits l \<or> v = Long_bits l - 18446744073709551616"
    using assms unfolding Long_value_def p by (auto split: if_splits)
  then obtain q where v: "v = Long_bits l + 18446744073709551616 * q"
  proof
    assume "v = Long_bits l"
    then have "v = Long_bits l + 18446744073709551616 * 0" by simp
    then show ?thesis by (rule that)
  next
    assume "v = Long_bits l - 18446744073709551616"
    then have "v = Long_bits l + 18446744073709551616 * (- 1)" by simp
    then show ?thesis by (rule that)
  qed
  have "(hi + 4294967296 * q) * 4294967296 = hi * 4294967296 + 18446744073709551616 * q"
    by (simp add: distrib_right)
  then have v': "v = lo + (hi + 4294967296 * q) * 4294967296"
    unfolding v b by simp
  have lo0: "lo div 4294967296 = 0" "lo mod 4294967296 = lo"
    by (simp_all add: lo_def)
  have "v mod 4294967296 = lo mod 4294967296"
    unfolding v' by (rule mod_mult_self1)
  then show "low l mod 4294967296 = v mod 4294967296"
    using lo0 by (simp add: lo_def)
  have "v div 4294967296 = hi + 4294967296 * q + lo div 4294967296"
    unfolding v' by (rule div_mult_self1) simp
  then have d: "v div 4294967296 = hi + 4294967296 * q"
    using lo0 by simp
  have "(hi + 4294967296 * q) mod 4294967296 = hi mod 4294967296"
    by (rule mod_mult_self2)
  then show "high l mod 4294967296 = (v div 4294967296) mod 4294967296"
    unfolding d by (simp add: hi_def)
qed

lemma Long_value_bytes:
  assumes "Long_value l = v"
  shows "littleEndian32 (low l) @ littleEndian32 (high l) = littleEndian64 v"
proof -
  have "littleEndian32 (low l) = littleEndian32 v"
    using Long_value_halves(1)[OF assms] by (rule littleEndian32_cong)
  moreover have "littleEndian32 (high l) = littleEndian32 (v div 4294967296)"
    using Long_value_halves(2)[OF assms] by (rule littleEndian32_cong)
  ultimately show ?thesis by (simp add: littleEndian64_def)
qed

lemma Long_of_bits_bytes:
  "littleEndian32 (low (Long_of_bits k u)) @ littleEndian32 (high (Long_of_bits k u))
     = littleEndian64 k"
proof -
  have "littleEndian32 (low (Long_of_bits k u)) = littleEndian32 k"
    using Long_of_bits_mod(1) by (rule littleEndian32_cong)
  moreover have "littleEndian32 (high (Long_of_bits k u)) = littleEndian32 (k div 4294967296)"
    using Long_of_bits_mod(2) by (rule littleEndian32_cong)
  ultimately show ?thesis by (simp add: littleEndian64_def)
qed

lemma int32_bytes32: "littleEndian32 (int32 a) = littleEndian32 a"
  using int32_mod by (rule littleEndian32_cong)

lemma marshall_number64:
  assumes inv: "Put_inv ps"
    and sg: "sg = ''x'' \<and> - 9007199254740991 \<le> k \<or> sg = ''t'' \<and> 0 \<le> k"
    and up: "k \<le> 9007199254740991"
  shows "\<exists>ps'. MakeSimpleMarshaller enc sg ps (JNumber (Finite (of_int k))) = Inr ps'
           \<and> buffer ps' = buffer ps @ replicate ((8 - p_offset ps mod 8) mod 8) 0
                 @ littleEndian64 k"
proof -
  have ok: "checkLong (JNumber (Finite (of_int k))) (sg = ''x'')
      = Inr (Long_of_bits k (\<not> (sg = ''x'')))"
    using sg up by (intro checkLong_number) auto
  have s: "sg = ''x'' \<or> sg = ''t''" using sg by auto
  show ?thesis
    using marshall_long[OF inv s ok, of enc] by (simp only: Long_of_bits_bytes)
qed

lemma marshall_longlike64:
  assumes inv: "Put_inv ps" and sg: "sg = ''x'' \<or> sg = ''t''"
  shows "\<exists>ps'. MakeSimpleMarshaller enc sg ps
                 (JLongLike (Finite (of_int a)) (Finite (of_int b)) (sg = ''t'')) = Inr ps'
           \<and> buffer ps' = buffer ps @ replicate ((8 - p_offset ps mod 8) mod 8) 0
                 @ littleEndian32 a @ littleEndian32 b"
proof -
  have f: "(sg = ''t'') = (\<not> (sg = ''x''))" using sg by auto
  have ok: "checkLong (JLongLike (Finite (of_int a)) (Finite (of_int b)) (sg = ''t'')) (sg = ''x'')
      = Inr \<lparr>low = int32 a, high = int32 b, unsigned = \<not> (sg = ''x'')\<rparr>"
    unfolding f by (rule checkLong_longlike)
  show ?thesis
    using marshall_long[OF inv sg ok, of enc] by (simp add: int32_bytes32)
qed

lemma marshall_instance64:
  assumes inv: "Put_inv ps" and sg: "sg = ''x'' \<or> sg = ''t''"
    and lo: "- 2147483648 \<le> low l" "low l < 2147483648"
    and hi: "- 2147483648 \<le> high l" "high l < 2147483648"
    and u: "unsigned l = (sg = ''t'')"
  shows "\<exists>ps'. MakeSimpleMarshaller enc sg ps (JLong l) = Inr ps'
           \<and> buffer ps' = buffer ps @ replicate ((8 - p_offset ps mod 8) mod 8) 0
                 @ littleEndian32 (low l) @ littleEndian32 (high l)"
proof -
  have f: "unsigned l = (\<not> (sg = ''x''))" using sg u by auto
  have ok: "checkLong (JLong l) (sg = ''x'') = Inr l"
    using lo hi f by (rule checkLong_instance)
  show ?thesis
    using marshall_long[OF inv sg ok, of enc] .
qed

lemma marshall_string64:
  assumes inv: "Put_inv ps" and sg: "sg = ''x'' \<or> sg = ''t''"
    and sv: "stringValue core = Some v"
    and pre: "set pre \<subseteq> {CHR '' '', CHR 0x09, CHR 0x0A, CHR 0x0D}"
    and post: "set post \<subseteq> {CHR '' '', CHR 0x09, CHR 0x0A, CHR 0x0D}"
    and acc: "MakeSimpleMarshaller enc sg ps (JString (pre @ core @ post)) = Inr ps'"
  shows "buffer ps' = buffer ps @ replicate ((8 - p_offset ps mod 8) mod 8) 0 @ littleEndian64 v"
proof -
  obtain l where l: "checkLong (JString (pre @ core @ post)) (sg = ''x'') = Inr l"
  proof (cases "checkLong (JString (pre @ core @ post)) (sg = ''x'')")
    case (Inl e)
    then have "MakeSimpleMarshaller enc sg ps (JString (pre @ core @ post)) = Inl e"
      using sg by (intro marshall_long_rejected)
    then show ?thesis using acc by simp
  next
    case (Inr l)
    then show ?thesis by (rule that)
  qed
  have "checkLong (JString core) (sg = ''x'') = Inr l"
    using l checkLong_padded[OF sv pre post] by simp
  then have v: "Long_value l = v" using sv by (intro accepted_string_value)
  show ?thesis
    using marshall_long[OF inv sg l, of enc] acc by (simp add: Long_value_bytes[OF v])
qed

lemma padded_out_of_range:
  assumes sv: "stringValue core = Some v"
    and pre: "set pre \<subseteq> {CHR '' '', CHR 0x09, CHR 0x0A, CHR 0x0D}"
    and post: "set post \<subseteq> {CHR '' '', CHR 0x09, CHR 0x0A, CHR 0x0D}"
    and out: "if sg then v < - (2 ^ 63) \<or> 2 ^ 63 \<le> v else v < 0 \<or> 2 ^ 64 \<le> v"
  shows "isl (checkLong (JString (pre @ core @ post)) sg)"
  using string_out_of_range[OF sv out] checkLong_padded[OF sv pre post, of sg] by simp

text \<open>
  C5. Marshalling into a 64-bit field rejects sign mismatches and range overflow: a
  \<^verbatim>\<open>Long\<close>-like value whose \<^verbatim>\<open>unsigned\<close> flag is true is rejected for signature \<^verbatim>\<open>x\<close>,
  one whose flag is false is rejected for \<^verbatim>\<open>t\<close>; a native number outside the 53-bit safe
  window (or negative, for \<^verbatim>\<open>t\<close>) is rejected; a decimal or hexadecimal string denoting a
  value outside the 64-bit range of the field is rejected, with or without white space
  around it; what \<^verbatim>\<open>checkLong\<close> rejects the marshaller rejects. Every accepted value is
  written, after the padding to 8, as its low and high 32-bit halves, each little-endian:
  an integer of the window as the eight bytes of its two's complement, a \<^verbatim>\<open>Long\<close>-like
  value or a \<^verbatim>\<open>Long\<close> with the flag of the field as the bytes of its \<^verbatim>\<open>low\<close>, then of its
  \<^verbatim>\<open>high\<close>, and an accepted string as the eight bytes of the value it denotes.
\<close>

theorem long_rejects_and_writes:
  "checkLong (JLongLike lo hi True) True = Inl UnsignedIntoSigned
   \<and> (unsigned l \<longrightarrow> checkLong (JLong l) True = Inl UnsignedIntoSigned)
   \<and> checkLong (JLongLike lo hi False) False = Inl SignedIntoUnsigned
   \<and> (\<not> unsigned l \<longrightarrow> checkLong (JLong l) False = Inl SignedIntoUnsigned)
   \<and> (number_gt n 9007199254740991 \<or> number_lt n (- 9007199254740991)
        \<longrightarrow> isl (checkLong (JNumber n) True))
   \<and> (number_gt n 9007199254740991 \<or> number_lt n 0 \<longrightarrow> isl (checkLong (JNumber n) False))
   \<and> (stringValue s = Some v \<and> (v < - (2 ^ 63) \<or> 2 ^ 63 \<le> v)
          \<and> set pre \<subseteq> {CHR '' '', CHR 0x09, CHR 0x0A, CHR 0x0D}
          \<and> set post \<subseteq> {CHR '' '', CHR 0x09, CHR 0x0A, CHR 0x0D}
        \<longrightarrow> isl (checkLong (JString (pre @ s @ post)) True))
   \<and> (stringValue s = Some v \<and> (v < 0 \<or> 2 ^ 64 \<le> v)
          \<and> set pre \<subseteq> {CHR '' '', CHR 0x09, CHR 0x0A, CHR 0x0D}
          \<and> set post \<subseteq> {CHR '' '', CHR 0x09, CHR 0x0A, CHR 0x0D}
        \<longrightarrow> isl (checkLong (JString (pre @ s @ post)) False))
   \<and> ((sg = ''x'' \<or> sg = ''t'') \<and> checkLong data (sg = ''x'') = Inl e
        \<longrightarrow> MakeSimpleMarshaller enc sg ps data = Inl e)
   \<and> (Put_inv ps \<and> (sg = ''x'' \<or> sg = ''t'') \<and> checkLong data (sg = ''x'') = Inr l'
        \<longrightarrow> (\<exists>ps'. MakeSimpleMarshaller enc sg ps data = Inr ps'
               \<and> buffer ps' = buffer ps @ replicate ((8 - p_offset ps mod 8) mod 8) 0
                     @ littleEndian32 (low l') @ littleEndian32 (high l')))
   \<and> (Put_inv ps \<and> (sg = ''x'' \<and> - 9007199254740991 \<le> k \<or> sg = ''t'' \<and> 0 \<le> k)
          \<and> k \<le> 9007199254740991
        \<longrightarrow> (\<exists>ps'. MakeSimpleMarshaller enc sg ps (JNumber (Finite (of_int k))) = Inr ps'
               \<and> buffer ps' = buffer ps @ replicate ((8 - p_offset ps mod 8) mod 8) 0
                     @ littleEndian64 k))
   \<and> (Put_inv ps \<and> (sg = ''x'' \<or> sg = ''t'')
        \<longrightarrow> (\<exists>ps'. MakeSimpleMarshaller enc sg ps
                       (JLongLike (Finite (of_int a)) (Finite (of_int b)) (sg = ''t'')) = Inr ps'
               \<and> buffer ps' = buffer ps @ replicate ((8 - p_offset ps mod 8) mod 8) 0
                     @ littleEndian32 a @ littleEndian32 b))
   \<and> (Put_inv ps \<and> (sg = ''x'' \<or> sg = ''t'') \<and> unsigned m = (sg = ''t'')
          \<and> - 2147483648 \<le> low m \<and> low m < 2147483648
          \<and> - 2147483648 \<le> high m \<and> high m < 2147483648
        \<longrightarrow> (\<exists>ps'. MakeSimpleMarshaller enc sg ps (JLong m) = Inr ps'
               \<and> buffer ps' = buffer ps @ replicate ((8 - p_offset ps mod 8) mod 8) 0
                     @ littleEndian32 (low m) @ littleEndian32 (high m)))
   \<and> (Put_inv ps \<and> (sg = ''x'' \<or> sg = ''t'') \<and> stringValue t = Some w
          \<and> set pre \<subseteq> {CHR '' '', CHR 0x09, CHR 0x0A, CHR 0x0D}
          \<and> set post \<subseteq> {CHR '' '', CHR 0x09, CHR 0x0A, CHR 0x0D}
          \<and> MakeSimpleMarshaller enc sg ps (JString (pre @ t @ post)) = Inr ps''
        \<longrightarrow> buffer ps'' = buffer ps @ replicate ((8 - p_offset ps mod 8) mod 8) 0
              @ littleEndian64 w)"
proof (intro conjI impI)
  show "checkLong (JLongLike lo hi True) True = Inl UnsignedIntoSigned"
    by (rule longlike_flag(1))
  show "checkLong (JLong l) True = Inl UnsignedIntoSigned" if "unsigned l"
    using that by (rule longlike_flag(3))
  show "checkLong (JLongLike lo hi False) False = Inl SignedIntoUnsigned"
    by (rule longlike_flag(2))
  show "checkLong (JLong l) False = Inl SignedIntoUnsigned" if "\<not> unsigned l"
    using that by (rule longlike_flag(4))
  show "isl (checkLong (JNumber n) True)"
    if "number_gt n 9007199254740991 \<or> number_lt n (- 9007199254740991)"
    using that number_out_of_window[of True n] by auto
  show "isl (checkLong (JNumber n) False)"
    if "number_gt n 9007199254740991 \<or> number_lt n 0"
    using that number_out_of_window[of False n] by auto
  show "isl (checkLong (JString (pre @ s @ post)) True)"
    if "stringValue s = Some v \<and> (v < - (2 ^ 63) \<or> 2 ^ 63 \<le> v)
          \<and> set pre \<subseteq> {CHR '' '', CHR 0x09, CHR 0x0A, CHR 0x0D}
          \<and> set post \<subseteq> {CHR '' '', CHR 0x09, CHR 0x0A, CHR 0x0D}"
    using that padded_out_of_range[of s v pre post True] by simp
  show "isl (checkLong (JString (pre @ s @ post)) False)"
    if "stringValue s = Some v \<and> (v < 0 \<or> 2 ^ 64 \<le> v)
          \<and> set pre \<subseteq> {CHR '' '', CHR 0x09, CHR 0x0A, CHR 0x0D}
          \<and> set post \<subseteq> {CHR '' '', CHR 0x09, CHR 0x0A, CHR 0x0D}"
    using that padded_out_of_range[of s v pre post False] by simp
  show "MakeSimpleMarshaller enc sg ps data = Inl e"
    if "(sg = ''x'' \<or> sg = ''t'') \<and> checkLong data (sg = ''x'') = Inl e"
    using that marshall_long_rejected by blast
  show "\<exists>ps'. MakeSimpleMarshaller enc sg ps data = Inr ps'
          \<and> buffer ps' = buffer ps @ replicate ((8 - p_offset ps mod 8) mod 8) 0
                @ littleEndian32 (low l') @ littleEndian32 (high l')"
    if "Put_inv ps \<and> (sg = ''x'' \<or> sg = ''t'') \<and> checkLong data (sg = ''x'') = Inr l'"
    using that marshall_long by blast
  show "\<exists>ps'. MakeSimpleMarshaller enc sg ps (JNumber (Finite (of_int k))) = Inr ps'
          \<and> buffer ps' = buffer ps @ replicate ((8 - p_offset ps mod 8) mod 8) 0
                @ littleEndian64 k"
    if "Put_inv ps \<and> (sg = ''x'' \<and> - 9007199254740991 \<le> k \<or> sg = ''t'' \<and> 0 \<le> k)
          \<and> k \<le> 9007199254740991"
    using that by (intro marshall_number64) auto
  show "\<exists>ps'. MakeSimpleMarshaller enc sg ps
                (JLongLike (Finite (of_int a)) (Finite (of_int b)) (sg = ''t'')) = Inr ps'
          \<and> buffer ps' = buffer ps @ replicate ((8 - p_offset ps mod 8) mod 8) 0
                @ littleEndian32 a @ littleEndian32 b"
    if "Put_inv ps \<and> (sg = ''x'' \<or> sg = ''t'')"
    using that by (intro marshall_longlike64) auto
  show "\<exists>ps'. MakeSimpleMarshaller enc sg ps (JLong m) = Inr ps'
          \<and> buffer ps' = buffer ps @ replicate ((8 - p_offset ps mod 8) mod 8) 0
                @ littleEndian32 (low m) @ littleEndian32 (high m)"
    if "Put_inv ps \<and> (sg = ''x'' \<or> sg = ''t'') \<and> unsigned m = (sg = ''t'')
          \<and> - 2147483648 \<le> low m \<and> low m < 2147483648
          \<and> - 2147483648 \<le> high m \<and> high m < 2147483648"
    using that by (intro marshall_instance64) auto
  show "buffer ps'' = buffer ps @ replicate ((8 - p_offset ps mod 8) mod 8) 0 @ littleEndian64 w"
    if "Put_inv ps \<and> (sg = ''x'' \<or> sg = ''t'') \<and> stringValue t = Some w
          \<and> set pre \<subseteq> {CHR '' '', CHR 0x09, CHR 0x0A, CHR 0x0D}
          \<and> set post \<subseteq> {CHR '' '', CHR 0x09, CHR 0x0A, CHR 0x0D}
          \<and> MakeSimpleMarshaller enc sg ps (JString (pre @ t @ post)) = Inr ps''"
    using that marshall_string64[of ps sg t w pre post enc ps''] by blast
qed


theorem long_rejects_witness:
  "isl (checkLong (JNumber (Finite 9007199254740992)) True)
   \<and> isl (checkLong (JNumber (Finite 9007199254740992)) False)
   \<and> stringValue ''18446744073709551616'' = Some 18446744073709551616
   \<and> isl (checkLong (JString '' 18446744073709551616 '') True)
   \<and> isl (checkLong (JString '' 18446744073709551616 '') False)
   \<and> (\<exists>ps'. MakeSimpleMarshaller (\<lambda>r. []) ''x'' (new_put\<lparr>p_offset := 4\<rparr>) (JNumber (Finite 10))
                 = Inr ps'
          \<and> buffer ps' = [0, 0, 0, 0, 10, 0, 0, 0, 0, 0, 0, 0])
   \<and> (\<exists>ps'. MakeSimpleMarshaller (\<lambda>r. []) ''x'' (new_put\<lparr>p_offset := 4\<rparr>)
                 (JLongLike (Finite 1) (Finite 2) False) = Inr ps'
          \<and> buffer ps' = [0, 0, 0, 0, 1, 0, 0, 0, 2, 0, 0, 0])
   \<and> (\<exists>ps'. MakeSimpleMarshaller (\<lambda>r. []) ''x'' (new_put\<lparr>p_offset := 4\<rparr>)
                 (JLong \<lparr>low = 5, high = 0, unsigned = False\<rparr>) = Inr ps'
          \<and> buffer ps' = [0, 0, 0, 0, 5, 0, 0, 0, 0, 0, 0, 0])
   \<and> stringValue ''-2'' = Some (- 2)
   \<and> (\<exists>ps'. MakeSimpleMarshaller (\<lambda>r. []) ''x'' (new_put\<lparr>p_offset := 4\<rparr>) (JString '' -2 '')
                 = Inr ps'
          \<and> buffer ps' = [0, 0, 0, 0, 0xfe, 0xff, 0xff, 0xff, 0xff, 0xff, 0xff, 0xff])"
proof -
  let ?ps = "new_put\<lparr>p_offset := 4\<rparr>"
  let ?W = "{CHR '' '', CHR 0x09, CHR 0x0A, CHR 0x0D}"
  have sv: "stringValue ''18446744073709551616'' = Some 18446744073709551616"
    by (simp add: stringValue_def signed_numeral_value_def numeral_value_def digit_value_def
        digits_value_def)
  have sw: "stringValue ''-2'' = Some (- 2)"
    by (simp add: stringValue_def signed_numeral_value_def numeral_value_def digit_value_def
        digits_value_def)
  have ck: "checkLong (JString ('' '' @ ''-2'' @ '' '')) (''x'' = ''x'')
      = Inr \<lparr>low = - 2, high = - 1, unsigned = False\<rparr>"
    by (simp add: long_eval)
  have inv: "Put_inv ?ps"
    by (simp add: Put_inv_def new_put_def)
  have pad: "set '' '' \<subseteq> ?W" by simp
  have gt: "number_gt (Finite 9007199254740992) 9007199254740991" by simp
  have big: "(18446744073709551616 :: int) < - (2 ^ 63) \<or> 2 ^ 63 \<le> (18446744073709551616 :: int)"
    "(18446744073709551616 :: int) < 0 \<or> 2 ^ 64 \<le> (18446744073709551616 :: int)"
    by simp_all
  have m: "Long.unsigned \<lparr>low = 5, high = 0, unsigned = False\<rparr> = (''x'' = ''t'')"
    "- 2147483648 \<le> low \<lparr>low = 5, high = 0, unsigned = False\<rparr>"
    "low \<lparr>low = 5, high = 0, unsigned = False\<rparr> < 2147483648"
    "- 2147483648 \<le> high \<lparr>low = 5, high = 0, unsigned = False\<rparr>"
    "high \<lparr>low = 5, high = 0, unsigned = False\<rparr> < 2147483648"
    by simp_all
  have k: "''x'' = ''x'' \<and> - 9007199254740991 \<le> (10 :: int) \<or> ''x'' = ''t'' \<and> 0 \<le> (10 :: int)"
    "(10 :: int) \<le> 9007199254740991" "''x'' = ''x'' \<or> ''x'' = ''t''"
    by simp_all
  have bs: "buffer ?ps = []" "(8 - p_offset ?ps mod 8) mod 8 = 4"
    by (simp_all add: buffer_def new_put_def)
  note T = long_rejects_and_writes
    [where n = "Finite 9007199254740992" and s = "''18446744073709551616''"
       and v = 18446744073709551616 and pre = "'' ''" and post = "'' ''"
       and sg = "''x''" and data = "JString ('' '' @ ''-2'' @ '' '')"
       and ps = ?ps and enc = "\<lambda>r. []"
       and l' = "\<lparr>low = - 2, high = - 1, unsigned = False\<rparr>"
       and k = 10 and a = 1 and b = 2 and m = "\<lparr>low = 5, high = 0, unsigned = False\<rparr>"
       and t = "''-2''" and w = "- 2"]
  note T5 = T
    [THEN conjunct2, THEN conjunct2, THEN conjunct2, THEN conjunct2,
     THEN conjunct1]
  note T6 = T
    [THEN conjunct2, THEN conjunct2, THEN conjunct2, THEN conjunct2,
     THEN conjunct2, THEN conjunct1]
  note T7 = T
    [THEN conjunct2, THEN conjunct2, THEN conjunct2, THEN conjunct2,
     THEN conjunct2, THEN conjunct2, THEN conjunct1]
  note T8 = T
    [THEN conjunct2, THEN conjunct2, THEN conjunct2, THEN conjunct2,
     THEN conjunct2, THEN conjunct2, THEN conjunct2, THEN conjunct1]
  note T10 = T
    [THEN conjunct2, THEN conjunct2, THEN conjunct2, THEN conjunct2,
     THEN conjunct2, THEN conjunct2, THEN conjunct2, THEN conjunct2,
     THEN conjunct2, THEN conjunct1]
  note T11 = T
    [THEN conjunct2, THEN conjunct2, THEN conjunct2, THEN conjunct2,
     THEN conjunct2, THEN conjunct2, THEN conjunct2, THEN conjunct2,
     THEN conjunct2, THEN conjunct2, THEN conjunct1]
  note T12 = T
    [THEN conjunct2, THEN conjunct2, THEN conjunct2, THEN conjunct2,
     THEN conjunct2, THEN conjunct2, THEN conjunct2, THEN conjunct2,
     THEN conjunct2, THEN conjunct2, THEN conjunct2, THEN conjunct1]
  note T13 = T
    [THEN conjunct2, THEN conjunct2, THEN conjunct2, THEN conjunct2,
     THEN conjunct2, THEN conjunct2, THEN conjunct2, THEN conjunct2,
     THEN conjunct2, THEN conjunct2, THEN conjunct2, THEN conjunct2,
     THEN conjunct1]
  note T14 = T
    [THEN conjunct2, THEN conjunct2, THEN conjunct2, THEN conjunct2,
     THEN conjunct2, THEN conjunct2, THEN conjunct2, THEN conjunct2,
     THEN conjunct2, THEN conjunct2, THEN conjunct2, THEN conjunct2,
     THEN conjunct2]
  have a: "isl (checkLong (JNumber (Finite 9007199254740992)) True)"
    using T5 gt by simp
  have b: "isl (checkLong (JNumber (Finite 9007199254740992)) False)"
    using T6 gt by simp
  have c: "isl (checkLong (JString ('' '' @ ''18446744073709551616'' @ '' '')) True)"
    using T7 sv big(1) pad by blast
  have d: "isl (checkLong (JString ('' '' @ ''18446744073709551616'' @ '' '')) False)"
    using T8 sv big(2) pad by blast
  obtain p1 where p1: "MakeSimpleMarshaller (\<lambda>r. []) ''x'' ?ps (JNumber (Finite (of_int 10))) = Inr p1"
    "buffer p1 = buffer ?ps @ replicate ((8 - p_offset ?ps mod 8) mod 8) 0 @ littleEndian64 10"
    using T11 inv k by blast
  obtain p2 where p2: "MakeSimpleMarshaller (\<lambda>r. []) ''x'' ?ps
        (JLongLike (Finite (of_int 1)) (Finite (of_int 2)) (''x'' = ''t'')) = Inr p2"
    "buffer p2 = buffer ?ps @ replicate ((8 - p_offset ?ps mod 8) mod 8) 0
        @ littleEndian32 1 @ littleEndian32 2"
    using T12 inv k(3) by blast
  obtain p3 where p3: "MakeSimpleMarshaller (\<lambda>r. []) ''x'' ?ps
        (JLong \<lparr>low = 5, high = 0, unsigned = False\<rparr>) = Inr p3"
    "buffer p3 = buffer ?ps @ replicate ((8 - p_offset ?ps mod 8) mod 8) 0
        @ littleEndian32 (low \<lparr>low = 5, high = 0, unsigned = False\<rparr>)
        @ littleEndian32 (high \<lparr>low = 5, high = 0, unsigned = False\<rparr>)"
    using T13 inv k(3) m by blast
  obtain p4 where p4: "MakeSimpleMarshaller (\<lambda>r. []) ''x'' ?ps (JString ('' '' @ ''-2'' @ '' ''))
        = Inr p4"
    using T10 inv k(3) ck by blast
  have b4: "buffer p4 = buffer ?ps @ replicate ((8 - p_offset ?ps mod 8) mod 8) 0
        @ littleEndian64 (- 2)"
    using T14 inv k(3) sw pad p4 by blast
  have e1: "buffer p1 = [0, 0, 0, 0, 10, 0, 0, 0, 0, 0, 0, 0]"
    unfolding p1(2) bs by (simp add: littleEndian64_def littleEndian32_def replicate_num)
  have e2: "buffer p2 = [0, 0, 0, 0, 1, 0, 0, 0, 2, 0, 0, 0]"
    unfolding p2(2) bs by (simp add: littleEndian32_def replicate_num)
  have e3: "buffer p3 = [0, 0, 0, 0, 5, 0, 0, 0, 0, 0, 0, 0]"
    unfolding p3(2) bs by (simp add: littleEndian32_def replicate_num)
  have e4: "buffer p4 = [0, 0, 0, 0, 0xfe, 0xff, 0xff, 0xff, 0xff, 0xff, 0xff, 0xff]"
    unfolding b4 bs by (simp add: littleEndian64_def littleEndian32_def replicate_num)
  show ?thesis
    using a b c d sv sw p1(1) e1 p2(1) e2 p3(1) e3 p4 e4 by simp
qed


end
